theory Spec2Isabelle
  imports Main "HOL-Library.Word"
begin

section \<open>The brainfuck engine of \<^verbatim>\<open>brainfuck.c\<close>\<close>

subsection \<open>Data model\<close>

text \<open>
  \<^verbatim>\<open>typedef char byte;\<close> A tape cell is one C \<^verbatim>\<open>char\<close>. Its signedness is left to the
  implementation; the model keeps the eight bits, so \<^verbatim>\<open>++\<close> and \<^verbatim>\<open>--\<close> are addition and
  subtraction of \<open>8 word\<close>. (\<^verbatim>\<open>++(**p)\<close> computes in \<^verbatim>\<open>int\<close> and converts back to \<^verbatim>\<open>char\<close>;
  where \<^verbatim>\<open>char\<close> is signed that conversion is implementation-defined, and keeping the low
  eight bits is what two's-complement implementations do.)
\<close>

type_synonym byte = "8 word"

definition MAX_BRAINFUCK :: nat where
  "MAX_BRAINFUCK = 30000"

text \<open>
  The three \<^verbatim>\<open>fprintf(stderr, ...)\<close> diagnostics, without their formatting.
\<close>

datatype diagnostic = Unmatched_open | Unmatched_close | Illegal_character char

text \<open>
  \<^verbatim>\<open>struct brainfuck_t\<close> holds a pointer to "the pointer" and the two I/O function
  pointers. The record holds what the struct reaches:
  \<^item> \<open>mem\<close>: the array the pointer points into (\<^verbatim>\<open>byte mem[MAX_BRAINFUCK]\<close> in
    \<^verbatim>\<open>do_brainfuck\<close>);
  \<^item> \<open>the_pointer\<close>: "the pointer", as its offset from \<^verbatim>\<open>mem\<close>. It is an \<open>int\<close>:
    \<^verbatim>\<open>++(*p)\<close> and \<^verbatim>\<open>--(*p)\<close> are plain address arithmetic with no test, so the offset
    may become negative or exceed the length of \<open>mem\<close>. (ISO C leaves undefined already
    the forming of a pointer before the array or more than one past its end; the model
    lets the pointer move, as an address does, and marks as undefined every access
    through it outside the array.)
  \<^item> \<open>inputs\<close>: the values the \<^verbatim>\<open>input\<close> hook will return, in order (\<^verbatim>\<open>getchar\<close> returns
    an \<^verbatim>\<open>int\<close>); once they are used up the hook returns \<open>EOF\<close>;
  \<^item> \<open>outputs\<close>: the bytes handed to the \<^verbatim>\<open>output\<close> hook so far, in order (the cell is
    promoted to \<^verbatim>\<open>int\<close> for the call and \<^verbatim>\<open>putchar\<close> writes it converted to
    \<^verbatim>\<open>unsigned char\<close>, that is, the same eight bits);
  \<^item> \<open>err\<close>: the diagnostics written to \<^verbatim>\<open>stderr\<close> so far.
\<close>

record brainfuck_t =
  mem :: "byte list"
  the_pointer :: int
  inputs :: "int list"
  outputs :: "byte list"
  err :: "diagnostic list"

text \<open>
  What a call does: it returns an \<^verbatim>\<open>int\<close> status and leaves the context changed, or
  it dereferences the pointer outside the array, which C leaves undefined. A call that
  does not return within the given fuel is \<open>None\<close> (see \<open>do_brainfuck_block\<close>).
\<close>

datatype outcome = Returned int brainfuck_t | Undefined

definition EOF :: int where
  "EOF = - 1"

text \<open>\<^verbatim>\<open>**p\<close> is defined only while the pointer is inside the array.\<close>

definition in_tape :: "brainfuck_t \<Rightarrow> bool" where
  "in_tape bf \<longleftrightarrow> 0 \<le> the_pointer bf \<and> the_pointer bf < int (length (mem bf))"

text \<open>Reading \<^verbatim>\<open>**p\<close>.\<close>

definition cell :: "brainfuck_t \<Rightarrow> byte" where
  "cell bf = mem bf ! nat (the_pointer bf)"

text \<open>Writing \<^verbatim>\<open>**p = v\<close>.\<close>

definition set_cell :: "byte \<Rightarrow> brainfuck_t \<Rightarrow> brainfuck_t" where
  "set_cell v bf = bf\<lparr>mem := (mem bf)[nat (the_pointer bf) := v]\<rparr>"

text \<open>\<^verbatim>\<open>brainfuck->input()\<close>: the next value of the hook, and the context after the call.\<close>

definition call_input :: "brainfuck_t \<Rightarrow> int \<times> brainfuck_t" where
  "call_input bf =
     (case inputs bf of
        [] \<Rightarrow> (EOF, bf)
      | v # vs \<Rightarrow> (v, bf\<lparr>inputs := vs\<rparr>))"

text \<open>\<^verbatim>\<open>brainfuck->output(c)\<close>.\<close>

definition call_output :: "byte \<Rightarrow> brainfuck_t \<Rightarrow> brainfuck_t" where
  "call_output c bf = bf\<lparr>outputs := outputs bf @ [c]\<rparr>"

text \<open>\<^verbatim>\<open>fprintf(stderr, ...)\<close>.\<close>

definition report :: "diagnostic \<Rightarrow> brainfuck_t \<Rightarrow> brainfuck_t" where
  "report d bf = bf\<lparr>err := err bf @ [d]\<rparr>"

text \<open>The inner \<^verbatim>\<open>switch\<close> of the \<^verbatim>\<open>default\<close> case: the characters that are skipped.\<close>

definition ignored :: "char \<Rightarrow> bool" where
  "ignored c \<longleftrightarrow>
     c = CHR 0x0D \<or> c = CHR 0x0A \<or> c = CHR '' '' \<or> c = CHR 0x09 \<or> c = CHR 0x0B \<or> c = CHR 0x0C"

subsection \<open>The bracket scan\<close>

text \<open>
  A block \<^verbatim>\<open>(code, n)\<close> is modelled as the list of its \<open>n\<close> characters: the function reads
  \<^verbatim>\<open>code[cnt]\<close> only for \<^verbatim>\<open>cnt < n\<close> and \<^verbatim>\<open>*loop_end\<close> only before \<^verbatim>\<open>end = code + n\<close>.
  Positions are offsets from \<^verbatim>\<open>code\<close>, so \<^verbatim>\<open>end\<close> is \<open>length code\<close>.

  The \<^verbatim>\<open>while (loop_end != end)\<close> loop of the \<^verbatim>\<open>'['\<close> case, returning the final
  \<^verbatim>\<open>loop_end\<close> and \<^verbatim>\<open>open_cnt\<close>. The scan starts at \<^verbatim>\<open>loop_begin + 1\<close>, which is at most
  \<^verbatim>\<open>end\<close>, and moves up by one, so \<^verbatim>\<open>loop_end != end\<close> is \<open>loop_end < length code\<close>.
  \<^verbatim>\<open>open_cnt\<close> is at least 1 whenever it is decremented.
\<close>

function scan_loop_end :: "string \<Rightarrow> nat \<Rightarrow> nat \<Rightarrow> nat \<times> nat" where
  "scan_loop_end code loop_end open_cnt =
     (if loop_end < length code then
        (let open_cnt' =
               (if code ! loop_end = CHR ''['' then open_cnt + 1
                else if code ! loop_end = CHR '']'' then open_cnt - 1
                else open_cnt)
         in if open_cnt' = 0 then (loop_end, open_cnt')
            else scan_loop_end code (loop_end + 1) open_cnt')
      else (loop_end, open_cnt))"
  by pat_completeness auto
termination
  by (relation "measure (\<lambda>(code, loop_end, open_cnt). length code - loop_end)") auto

declare scan_loop_end.simps [simp del]

subsection \<open>Executing a block\<close>

text \<open>
  \<^verbatim>\<open>do_brainfuck_block\<close> has two loops: the scan \<^verbatim>\<open>while (cnt < n)\<close>, and inside its
  \<^verbatim>\<open>'['\<close> case the loop \<^verbatim>\<open>while (**p)\<close>, which calls the function on the loop body and may
  run forever. Both are recursive functions on a fuel that every call and every iteration
  decreases; \<open>None\<close> means the fuel ran out before the call returned.
  \<^item> \<open>block_scan fuel code cnt bf\<close> is the \<^verbatim>\<open>while (cnt < n)\<close> loop from position
    \<open>cnt\<close> in context \<open>bf\<close>;
  \<^item> \<open>exec_loop fuel body bf\<close> is the \<^verbatim>\<open>while (**p)\<close> loop: it gives the status to return
    from the enclosing call when it is non-zero, and status 0 with the context after the
    loop otherwise. \<open>body\<close> is the block \<^verbatim>\<open>(loop_begin + 1, loop_len - 1)\<close>.
\<close>

function (sequential) block_scan :: "nat \<Rightarrow> string \<Rightarrow> nat \<Rightarrow> brainfuck_t \<Rightarrow> outcome option"
  and exec_loop :: "nat \<Rightarrow> string \<Rightarrow> brainfuck_t \<Rightarrow> outcome option"
where
  "block_scan 0 code cnt bf = None"
| "block_scan (Suc fuel) code cnt bf =
     (if cnt < length code then
        (let cur = code ! cnt in
         if cur = CHR ''>'' then
           block_scan fuel code (cnt + 1) (bf\<lparr>the_pointer := the_pointer bf + 1\<rparr>)
         else if cur = CHR ''<'' then
           block_scan fuel code (cnt + 1) (bf\<lparr>the_pointer := the_pointer bf - 1\<rparr>)
         else if cur = CHR ''+'' then
           (if in_tape bf then block_scan fuel code (cnt + 1) (set_cell (cell bf + 1) bf)
            else Some Undefined)
         else if cur = CHR ''-'' then
           (if in_tape bf then block_scan fuel code (cnt + 1) (set_cell (cell bf - 1) bf)
            else Some Undefined)
         else if cur = CHR ''.'' then
           (if in_tape bf then block_scan fuel code (cnt + 1) (call_output (cell bf) bf)
            else Some Undefined)
         else if cur = CHR '','' then
           (case call_input bf of
              (v, bf') \<Rightarrow>
                if in_tape bf' then block_scan fuel code (cnt + 1) (set_cell (word_of_int v) bf')
                else Some Undefined)
         else if cur = CHR ''['' then
           (case scan_loop_end code (cnt + 1) 1 of
              (loop_end, open_cnt) \<Rightarrow>
                if open_cnt \<noteq> 0 then Some (Returned (- 2) (report Unmatched_open bf))
                else
                  (let loop_len = loop_end - cnt in
                   case exec_loop fuel (take (loop_len - 1) (drop (cnt + 1) code)) bf of
                     None \<Rightarrow> None
                   | Some Undefined \<Rightarrow> Some Undefined
                   | Some (Returned ret bf') \<Rightarrow>
                       if ret \<noteq> 0 then Some (Returned ret bf')
                       else block_scan fuel code (cnt + (loop_len + 1)) bf'))
         else if cur = CHR '']'' then Some (Returned (- 3) (report Unmatched_close bf))
         else if ignored cur then block_scan fuel code (cnt + 1) bf
         else Some (Returned (- 4) (report (Illegal_character cur) bf)))
      else Some (Returned 0 bf))"
| "exec_loop 0 body bf = None"
| "exec_loop (Suc fuel) body bf =
     (if \<not> in_tape bf then Some Undefined
      else if cell bf \<noteq> 0 then
        (case block_scan fuel body 0 bf of
           None \<Rightarrow> None
         | Some Undefined \<Rightarrow> Some Undefined
         | Some (Returned ret bf') \<Rightarrow>
             if ret \<noteq> 0 then Some (Returned ret bf')
             else exec_loop fuel body bf')
      else Some (Returned 0 bf))"
  by pat_completeness
    (simp_all only: Pair_inject sum.inject nat.inject nat.distinct sum.distinct, blast+)
termination
  by (relation "measure (\<lambda>x. case x of Inl (fuel, code, cnt, bf) \<Rightarrow> fuel
                                      | Inr (fuel, body, bf) \<Rightarrow> fuel)") simp_all

declare block_scan.simps [simp del] exec_loop.simps [simp del]

text \<open>\<^verbatim>\<open>do_brainfuck_block(code, n, brainfuck)\<close>: the scan starts at \<^verbatim>\<open>cnt = 0\<close>.\<close>

definition do_brainfuck_block :: "nat \<Rightarrow> string \<Rightarrow> brainfuck_t \<Rightarrow> outcome option" where
  "do_brainfuck_block fuel code bf = block_scan fuel code 0 bf"

text \<open>
  \<^verbatim>\<open>do_brainfuck(code, n)\<close>: a zeroed array of \<open>MAX_BRAINFUCK\<close> cells, the pointer at its
  first cell, and the block made of the first \<open>n\<close> characters of \<open>code\<close>. The caller must
  pass a buffer of at least \<open>n\<close> characters; reading past it is undefined. \<open>inp\<close> is what the
  \<^verbatim>\<open>input\<close> hook (\<^verbatim>\<open>getchar\<close>) is going to return.
\<close>

definition initial :: "int list \<Rightarrow> brainfuck_t" where
  "initial inp =
     \<lparr>mem = replicate MAX_BRAINFUCK 0, the_pointer = 0, inputs = inp, outputs = [], err = []\<rparr>"

definition do_brainfuck :: "nat \<Rightarrow> string \<Rightarrow> nat \<Rightarrow> int list \<Rightarrow> outcome option" where
  "do_brainfuck fuel code n inp =
     (if length code < n then Some Undefined
      else do_brainfuck_block fuel (take n code) (initial inp))"

subsection \<open>The loop span as the specification words it\<close>

text \<open>
  The nesting depth after the characters at positions \<open>i + 1, ..., j\<close> of a block have
  been counted: it starts at 1, every \<^verbatim>\<open>'['\<close> adds one and every \<^verbatim>\<open>']'\<close> takes one away.
  The loop opened at \<open>i\<close> is closed at the first position after \<open>i\<close> where the depth is 0,
  if the block has one.
\<close>

definition depth_after :: "string \<Rightarrow> nat \<Rightarrow> nat \<Rightarrow> int" where
  "depth_after code i j =
     1 + int (count_list (take (j - i) (drop (Suc i) code)) (CHR ''[''))
       - int (count_list (take (j - i) (drop (Suc i) code)) (CHR '']''))"

definition matching_close :: "string \<Rightarrow> nat \<Rightarrow> nat option" where
  "matching_close code i = find (\<lambda>j. depth_after code i j = 0) [Suc i ..< length code]"

text \<open>
  The eight instruction characters, and the six whitespace characters the specification
  lists: space, tab, carriage return, line feed, vertical tab, form feed.
\<close>

definition instruction_char :: "char \<Rightarrow> bool" where
  "instruction_char c \<longleftrightarrow> c \<in> set ''><+-.,[]''"

definition whitespace :: "char \<Rightarrow> bool" where
  "whitespace c \<longleftrightarrow> c \<in> set [CHR '' '', CHR 0x09, CHR 0x0D, CHR 0x0A, CHR 0x0B, CHR 0x0C]"

text \<open>
  Bracket balance: \<open>level code k\<close> is the number of \<^verbatim>\<open>'['\<close> minus the number of \<^verbatim>\<open>']'\<close>
  among the first \<open>k\<close> characters; a block is balanced when the level is never negative
  and is 0 at its end.
\<close>

definition level :: "string \<Rightarrow> nat \<Rightarrow> int" where
  "level code k =
     int (count_list (take k code) (CHR ''['')) - int (count_list (take k code) (CHR '']''))"

definition balanced :: "string \<Rightarrow> bool" where
  "balanced code \<longleftrightarrow> (\<forall>k \<le> length code. 0 \<le> level code k) \<and> level code (length code) = 0"

text \<open>
  Counting iterations: \<open>loop_iterations body bf k bf'\<close> holds when the loop
  \<^verbatim>\<open>while (**p)\<close> with the given body, entered in context \<open>bf\<close>, calls
  \<^verbatim>\<open>do_brainfuck_block\<close> on the body exactly \<open>k\<close> times, every call returning 0, and then
  finds the current cell at 0 and leaves in context \<open>bf'\<close>.
\<close>

inductive loop_iterations :: "string \<Rightarrow> brainfuck_t \<Rightarrow> nat \<Rightarrow> brainfuck_t \<Rightarrow> bool" where
  leave: "in_tape bf \<Longrightarrow> cell bf = 0 \<Longrightarrow> loop_iterations body bf 0 bf"
| iterate: "in_tape bf \<Longrightarrow> cell bf \<noteq> 0 \<Longrightarrow>
     do_brainfuck_block fuel body bf = Some (Returned 0 bf') \<Longrightarrow>
     loop_iterations body bf' k bf'' \<Longrightarrow>
     loop_iterations body bf (Suc k) bf''"

text \<open>
  Iterations made so far: \<open>iterations_done body bf k bfk\<close> holds when the loop
  \<^verbatim>\<open>while (**p)\<close> with the given body, entered in context \<open>bf\<close>, has found the current cell
  non-zero \<open>k\<close> times in a row, each time called \<^verbatim>\<open>do_brainfuck_block\<close> on the body and got 0,
  and is now in context \<open>bfk\<close>, about to test the cell again.
\<close>

inductive iterations_done :: "string \<Rightarrow> brainfuck_t \<Rightarrow> nat \<Rightarrow> brainfuck_t \<Rightarrow> bool" where
  none: "iterations_done body bf 0 bf"
| more: "in_tape bf \<Longrightarrow> cell bf \<noteq> 0 \<Longrightarrow>
     do_brainfuck_block fuel body bf = Some (Returned 0 bf1) \<Longrightarrow>
     iterations_done body bf1 k bf2 \<Longrightarrow>
     iterations_done body bf (Suc k) bf2"

text \<open>
  A context for examples: the given cells as the array, the pointer at the first one, no
  input left and nothing written yet.
\<close>

definition window :: "byte list \<Rightarrow> brainfuck_t" where
  "window cells = \<lparr>mem = cells, the_pointer = 0, inputs = [], outputs = [], err = []\<rparr>"

section \<open>Properties\<close>

subsection \<open>Fuel\<close>

text \<open>A call that returns with some fuel returns the same with more.\<close>

lemma fuel_Suc:
  "(\<forall>code cnt bf r. block_scan f code cnt bf = Some r \<longrightarrow> block_scan (Suc f) code cnt bf = Some r)
   \<and> (\<forall>body bf r. exec_loop f body bf = Some r \<longrightarrow> exec_loop (Suc f) body bf = Some r)"
proof (induction f)
  case 0
  show ?case by (simp add: block_scan.simps exec_loop.simps)
next
  case (Suc f)
  then have B: "\<And>code cnt bf r. block_scan f code cnt bf = Some r \<Longrightarrow> block_scan (Suc f) code cnt bf = Some r"
    and L: "\<And>body bf r. exec_loop f body bf = Some r \<Longrightarrow> exec_loop (Suc f) body bf = Some r"
    by blast+
  have 1: "block_scan (Suc (Suc f)) code cnt bf = Some r" if "block_scan (Suc f) code cnt bf = Some r" for code cnt bf r
    using that
    apply (subst block_scan.simps)
    apply (subst (asm) block_scan.simps)
    apply (auto simp: Let_def B L split: if_splits prod.splits option.splits outcome.splits)
    done
  have 2: "exec_loop (Suc (Suc f)) body bf = Some r" if "exec_loop (Suc f) body bf = Some r" for body bf r
    using that
    apply (subst exec_loop.simps)
    apply (subst (asm) exec_loop.simps)
    apply (auto simp: Let_def B L split: if_splits prod.splits option.splits outcome.splits)
    done
  from 1 2 show ?case by blast
qed


lemma block_scan_mono:
  "f \<le> f' \<Longrightarrow> block_scan f code cnt bf = Some r \<Longrightarrow> block_scan f' code cnt bf = Some r"
  by (induction rule: dec_induct) (auto dest: fuel_Suc[THEN conjunct1, rule_format])

lemma exec_loop_mono:
  "f \<le> f' \<Longrightarrow> exec_loop f body bf = Some r \<Longrightarrow> exec_loop f' body bf = Some r"
  by (induction rule: dec_induct) (auto dest: fuel_Suc[THEN conjunct2, rule_format])

lemma block_scan_deterministic:
  assumes "block_scan f code cnt bf = Some r" "block_scan f' code cnt bf = Some r'"
  shows "r = r'"
proof -
  have "block_scan (max f f') code cnt bf = Some r" "block_scan (max f f') code cnt bf = Some r'"
    using assms by (auto intro: block_scan_mono[rotated])
  then show ?thesis by simp
qed

lemma exec_loop_deterministic:
  assumes "exec_loop f body bf = Some r" "exec_loop f' body bf = Some r'"
  shows "r = r'"
proof -
  have "exec_loop (max f f') body bf = Some r" "exec_loop (max f f') body bf = Some r'"
    using assms by (auto intro: exec_loop_mono[rotated])
  then show ?thesis by simp
qed

subsection \<open>The bracket scan computes the specified span\<close>

lemma depth_after_self: "depth_after code i i = 1"
  by (simp add: depth_after_def)

lemma depth_after_Suc:
  assumes "i \<le> j" "Suc j < length code"
  shows "depth_after code i (Suc j) =
           depth_after code i j +
             (if code ! Suc j = CHR ''['' then 1 else if code ! Suc j = CHR '']'' then - 1 else 0)"
proof -
  have "take (Suc j - i) (drop (Suc i) code) = take (j - i) (drop (Suc i) code) @ [code ! Suc j]"
    using assms by (simp add: Suc_diff_le take_Suc_conv_app_nth)
  then show ?thesis
    by (simp add: depth_after_def)
qed

lemma scan_loop_end_find:
  assumes "i < k" "k \<le> length code" "0 < depth_after code i (k - 1)"
  shows "(\<forall>j. find (\<lambda>j. depth_after code i j = 0) [k ..< length code] = Some j \<longrightarrow>
            scan_loop_end code k (nat (depth_after code i (k - 1))) = (j, 0)) \<and>
         (find (\<lambda>j. depth_after code i j = 0) [k ..< length code] = None \<longrightarrow>
            (\<exists>open_cnt. scan_loop_end code k (nat (depth_after code i (k - 1))) = (length code, open_cnt)
               \<and> open_cnt \<noteq> 0))"
  using assms
proof (induction "length code - k" arbitrary: k)
  case 0
  then have "k = length code" by simp
  then show ?case using 0 by (simp add: scan_loop_end.simps)
next
  case (Suc d)
  then have klt: "k < length code" by simp
  obtain k' where k': "k = Suc k'" "i \<le> k'" using Suc.prems(1) by (cases k) auto
  have step: "depth_after code i k = depth_after code i (k - 1) +
             (if code ! k = CHR ''['' then 1 else if code ! k = CHR '']'' then - 1 else 0)"
    using depth_after_Suc[of i k' code] k' klt by simp
  have upt: "[k ..< length code] = k # [Suc k ..< length code]"
    using klt by (simp add: upt_conv_Cons)
  show ?case
  proof (cases "depth_after code i k = 0")
    case True
    have "scan_loop_end code k (nat (depth_after code i (k - 1))) = (k, 0)"
      using klt step Suc.prems(3) True
      by (subst scan_loop_end.simps) (auto simp: Let_def split: if_splits)
    then show ?thesis using True by (simp add: upt)
  next
    case False
    with step Suc.prems(3) have pos: "0 < depth_after code i k" by (auto split: if_splits)
    have IH: "(\<forall>j. find (\<lambda>j. depth_after code i j = 0) [Suc k ..< length code] = Some j \<longrightarrow>
            scan_loop_end code (Suc k) (nat (depth_after code i k)) = (j, 0)) \<and>
         (find (\<lambda>j. depth_after code i j = 0) [Suc k ..< length code] = None \<longrightarrow>
            (\<exists>open_cnt. scan_loop_end code (Suc k) (nat (depth_after code i k)) = (length code, open_cnt)
               \<and> open_cnt \<noteq> 0))"
      using Suc.hyps(1)[of "Suc k"] Suc.hyps(2) klt Suc.prems(1) pos by simp
    have nxt: "scan_loop_end code k (nat (depth_after code i (k - 1))) = scan_loop_end code (Suc k) (nat (depth_after code i k))"
      using klt step pos Suc.prems(3)
      by (subst scan_loop_end.simps) (auto simp: Let_def nat_add_distrib nat_diff_distrib split: if_splits)
    show ?thesis unfolding nxt upt using IH False by simp
  qed
qed

lemma scan_loop_end_matching_close:
  assumes "i < length code"
  shows "(\<forall>j. matching_close code i = Some j \<longrightarrow> scan_loop_end code (Suc i) 1 = (j, 0)) \<and>
         (matching_close code i = None \<longrightarrow>
            (\<exists>open_cnt. scan_loop_end code (Suc i) 1 = (length code, open_cnt) \<and> open_cnt \<noteq> 0))"
  using scan_loop_end_find[of i "Suc i" code] assms
  by (simp add: matching_close_def depth_after_self)


lemma ignored_whitespace: "ignored c = whitespace c"
  by (auto simp: ignored_def whitespace_def)

lemma matching_close_SomeD:
  "matching_close code i = Some j \<Longrightarrow> i < j \<and> j < length code \<and> depth_after code i j = 0"
  by (auto simp: matching_close_def find_Some_iff)

lemma matching_close_first:
  "matching_close code i = Some j \<Longrightarrow> i < k \<Longrightarrow> k < j \<Longrightarrow> depth_after code i k \<noteq> 0"
  apply (clarsimp simp: matching_close_def find_Some_iff)
  subgoal for m
    apply (drule spec[of _ "k - Suc i"])
    apply auto
    done
  done

lemma depth_after_take:
  "j < i \<Longrightarrow> depth_after (take i code) c j = depth_after code c j"
  by (simp add: depth_after_def drop_take min_def)

lemma find_append_Some:
  "find P xs = Some x \<Longrightarrow> find P (xs @ ys) = Some x"
  by (induction xs) (auto split: if_splits)

lemma matching_close_take:
  assumes "matching_close (take i code) c = Some le" "i \<le> length code"
  shows "matching_close code c = Some le"
proof -
  from assms have le: "c < le" "le < i"
    by (auto dest: matching_close_SomeD)
  have "find (\<lambda>j. depth_after code c j = 0) [Suc c ..< i] = Some le"
    using assms unfolding matching_close_def
    by (subst find_cong[OF refl, of _ _ "\<lambda>j. depth_after (take i code) c j = 0"])
       (auto simp: depth_after_take)
  moreover have "[Suc c ..< length code] = [Suc c ..< i] @ [i ..< length code]"
    using le assms(2) upt_add_eq_append[of "Suc c" i "length code - i"] by simp
  ultimately show ?thesis
    by (simp add: matching_close_def find_append_Some)
qed

lemma scan_loop_end_matched:
  assumes "i < length code" "scan_loop_end code (Suc i) 1 = (j, 0)"
  shows "matching_close code i = Some j"
  using scan_loop_end_matching_close[of i code] assms
  by (cases "matching_close code i") auto

lemma scan_loop_end_brackets_only:
  assumes "length code' = length code"
    and "\<forall>k < length code. (code' ! k = CHR ''['' \<longleftrightarrow> code ! k = CHR ''['') \<and>
                            (code' ! k = CHR '']'' \<longleftrightarrow> code ! k = CHR '']'')"
  shows "scan_loop_end code' k open_cnt = scan_loop_end code k open_cnt"
proof (induction "length code - k" arbitrary: k open_cnt)
  case 0
  then show ?case using assms(1) by (simp add: scan_loop_end.simps)
next
  case (Suc d)
  then have k: "k < length code" by simp
  have IH: "scan_loop_end code' (Suc k) oc = scan_loop_end code (Suc k) oc" for oc
    using Suc.hyps(1)[of "Suc k"] Suc.hyps(2) by simp
  show ?case
    using k assms IH
    by (subst scan_loop_end.simps, subst (2) scan_loop_end.simps) (simp add: Let_def)
qed

subsection \<open>Context operations\<close>

lemma in_tape_set_cell [simp]: "in_tape (set_cell v bf) = in_tape bf"
  by (simp add: in_tape_def set_cell_def)

lemma cell_set_cell [simp]: "in_tape bf \<Longrightarrow> cell (set_cell v bf) = v"
  by (simp add: in_tape_def set_cell_def cell_def nat_less_iff)

lemma set_cell_set_cell [simp]: "set_cell v (set_cell w bf) = set_cell v bf"
  by (simp add: set_cell_def)

lemma set_cell_cell [simp]: "set_cell (cell bf) bf = bf"
  by (simp add: set_cell_def cell_def)

lemma in_tape_call_output [simp]: "in_tape (call_output c bf) = in_tape bf"
  by (simp add: in_tape_def call_output_def)

lemma cell_call_output [simp]: "cell (call_output c bf) = cell bf"
  by (simp add: cell_def call_output_def)

lemma in_tape_initial [simp]: "in_tape (initial inp)"
  by (simp add: in_tape_def initial_def MAX_BRAINFUCK_def)

lemma cell_initial [simp]: "cell (initial inp) = 0"
  by (simp add: cell_def initial_def MAX_BRAINFUCK_def)

lemma call_input_initial [simp]: "call_input (initial (v # vs)) = (v, initial vs)"
  by (simp add: call_input_def initial_def)

lemma call_input_initial_Nil [simp]: "call_input (initial []) = (EOF, initial [])"
  by (simp add: call_input_def initial_def)

lemma in_tape_call_input: "in_tape (snd (call_input bf)) = in_tape bf"
  by (simp add: call_input_def in_tape_def split: list.splits)

subsection \<open>One step of the scan\<close>

lemma block_scan_end:
  "length code \<le> cnt \<Longrightarrow> block_scan (Suc fuel) code cnt bf = Some (Returned 0 bf)"
  by (simp add: block_scan.simps)

lemma block_scan_right:
  "cnt < length code \<Longrightarrow> code ! cnt = CHR ''>'' \<Longrightarrow>
   block_scan (Suc fuel) code cnt bf =
     block_scan fuel code (Suc cnt) (bf\<lparr>the_pointer := the_pointer bf + 1\<rparr>)"
  by (simp add: block_scan.simps)

lemma block_scan_left:
  "cnt < length code \<Longrightarrow> code ! cnt = CHR ''<'' \<Longrightarrow>
   block_scan (Suc fuel) code cnt bf =
     block_scan fuel code (Suc cnt) (bf\<lparr>the_pointer := the_pointer bf - 1\<rparr>)"
  by (simp add: block_scan.simps)

lemma block_scan_plus:
  "cnt < length code \<Longrightarrow> code ! cnt = CHR ''+'' \<Longrightarrow>
   block_scan (Suc fuel) code cnt bf =
     (if in_tape bf then block_scan fuel code (Suc cnt) (set_cell (cell bf + 1) bf)
      else Some Undefined)"
  by (simp add: block_scan.simps)

lemma block_scan_minus:
  "cnt < length code \<Longrightarrow> code ! cnt = CHR ''-'' \<Longrightarrow>
   block_scan (Suc fuel) code cnt bf =
     (if in_tape bf then block_scan fuel code (Suc cnt) (set_cell (cell bf - 1) bf)
      else Some Undefined)"
  by (simp add: block_scan.simps)

lemma block_scan_dot:
  "cnt < length code \<Longrightarrow> code ! cnt = CHR ''.'' \<Longrightarrow>
   block_scan (Suc fuel) code cnt bf =
     (if in_tape bf then block_scan fuel code (Suc cnt) (call_output (cell bf) bf)
      else Some Undefined)"
  by (simp add: block_scan.simps)

lemma block_scan_comma:
  "cnt < length code \<Longrightarrow> code ! cnt = CHR '','' \<Longrightarrow>
   block_scan (Suc fuel) code cnt bf =
     (if in_tape (snd (call_input bf))
      then block_scan fuel code (Suc cnt)
             (set_cell (word_of_int (fst (call_input bf))) (snd (call_input bf)))
      else Some Undefined)"
  by (simp add: block_scan.simps split: prod.splits)

lemma block_scan_close:
  "cnt < length code \<Longrightarrow> code ! cnt = CHR '']'' \<Longrightarrow>
   block_scan (Suc fuel) code cnt bf = Some (Returned (- 3) (report Unmatched_close bf))"
  by (simp add: block_scan.simps)

lemma block_scan_ignored:
  "cnt < length code \<Longrightarrow> ignored (code ! cnt) \<Longrightarrow>
   block_scan (Suc fuel) code cnt bf = block_scan fuel code (Suc cnt) bf"
  by (auto simp add: block_scan.simps ignored_def)

lemma block_scan_illegal:
  "cnt < length code \<Longrightarrow> \<not> instruction_char (code ! cnt) \<Longrightarrow> \<not> ignored (code ! cnt) \<Longrightarrow>
   block_scan (Suc fuel) code cnt bf =
     Some (Returned (- 4) (report (Illegal_character (code ! cnt)) bf))"
  by (auto simp add: block_scan.simps instruction_char_def)

lemma block_scan_open_unmatched:
  assumes "cnt < length code" "code ! cnt = CHR ''[''" "matching_close code cnt = None"
  shows "block_scan (Suc fuel) code cnt bf = Some (Returned (- 2) (report Unmatched_open bf))"
proof -
  obtain open_cnt where "scan_loop_end code (Suc cnt) 1 = (length code, open_cnt)" "open_cnt \<noteq> 0"
    using scan_loop_end_matching_close[of cnt code] assms by blast
  then show ?thesis using assms by (simp add: block_scan.simps)
qed

lemma block_scan_open_matched:
  assumes "cnt < length code" "code ! cnt = CHR ''[''" "matching_close code cnt = Some j"
  shows "block_scan (Suc fuel) code cnt bf =
           (case exec_loop fuel (take (j - Suc cnt) (drop (Suc cnt) code)) bf of
              None \<Rightarrow> None
            | Some Undefined \<Rightarrow> Some Undefined
            | Some (Returned ret bf') \<Rightarrow>
                if ret \<noteq> 0 then Some (Returned ret bf')
                else block_scan fuel code (Suc j) bf')"
proof -
  have "scan_loop_end code (Suc cnt) 1 = (j, 0)"
    using scan_loop_end_matching_close[of cnt code] assms by blast
  moreover have "cnt < j"
    using assms(3) by (auto simp: matching_close_def find_Some_iff)
  ultimately show ?thesis using assms(1,2)
    by (auto simp: block_scan.simps Let_def split: option.splits outcome.splits)
qed


subsection \<open>The loop\<close>

lemma exec_loop_outside:
  "\<not> in_tape bf \<Longrightarrow> exec_loop (Suc fuel) body bf = Some Undefined"
  by (simp add: exec_loop.simps)

lemma exec_loop_zero:
  "in_tape bf \<Longrightarrow> cell bf = 0 \<Longrightarrow> exec_loop (Suc fuel) body bf = Some (Returned 0 bf)"
  by (simp add: exec_loop.simps)

lemma exec_loop_nonzero:
  "in_tape bf \<Longrightarrow> cell bf \<noteq> 0 \<Longrightarrow>
   exec_loop (Suc fuel) body bf =
     (case block_scan fuel body 0 bf of
        None \<Rightarrow> None
      | Some Undefined \<Rightarrow> Some Undefined
      | Some (Returned ret bf') \<Rightarrow>
          if ret \<noteq> 0 then Some (Returned ret bf') else exec_loop fuel body bf')"
  by (simp add: exec_loop.simps)

lemma block_scan_loop_skip:
  assumes "i < length code" "code ! i = CHR ''[''" "matching_close code i = Some j"
    and "in_tape bf" "cell bf = 0"
  shows "block_scan (Suc (Suc fuel)) code i bf = block_scan (Suc fuel) code (Suc j) bf"
  using assms by (simp add: block_scan_open_matched exec_loop_zero)





subsection \<open>A block that follows a completed prefix\<close>

text \<open>
  When the block made of the first \<open>i\<close> characters runs to its end with status 0, the scan of
  the whole block reaches position \<open>i\<close> in the same context.
\<close>

lemma block_scan_prefix:
  assumes "block_scan f (take i code) c bf0 = Some (Returned 0 bf)"
    and "c \<le> i" "i \<le> length code"
    and "block_scan f' code i bf = Some r"
  shows "\<exists>f''. block_scan f'' code c bf0 = Some r"
  using assms(1,2)
proof (induction f arbitrary: c bf0)
  case 0
  then show ?case by (simp add: block_scan.simps)
next
  case (Suc f)
  let ?pre = "take i code"
  have len: "length ?pre = i" using assms(3) by simp
  show ?case
  proof (cases "c < i")
    case False
    then have "c = i" using Suc.prems(2) by simp
    moreover have "bf0 = bf" using Suc.prems(1) False len by (simp add: block_scan_end)
    ultimately show ?thesis using assms(4) by blast
  next
    case True
    then have c: "c < length ?pre" "c < length code" and cur: "?pre ! c = code ! c"
      using assms(3) by simp_all
    have step: "\<exists>f''. block_scan f'' code c bf0 = Some r"
      if "block_scan f ?pre (Suc c) bf1 = Some (Returned 0 bf)"
        and "\<And>g. block_scan (Suc g) code c bf0 = block_scan g code (Suc c) bf1" for bf1
    proof -
      from Suc.IH[OF that(1)] True obtain g where "block_scan g code (Suc c) bf1 = Some r"
        by auto
      then have "block_scan (Suc g) code c bf0 = Some r" by (simp add: that(2))
      then show ?thesis ..
    qed
    consider (right) "code ! c = CHR ''>''" | (left) "code ! c = CHR ''<''"
      | (plus) "code ! c = CHR ''+''" | (minus) "code ! c = CHR ''-''"
      | (dot) "code ! c = CHR ''.''" | (comma) "code ! c = CHR '',''"
      | (opn) "code ! c = CHR ''[''" | (cls) "code ! c = CHR '']''"
      | (ign) "ignored (code ! c)"
      | (ill) "\<not> instruction_char (code ! c)" "\<not> ignored (code ! c)"
      by (auto simp: instruction_char_def)
    then show ?thesis
    proof cases
      case right
      show ?thesis
        using Suc.prems(1) c cur right
        by (intro step[of "bf0\<lparr>the_pointer := the_pointer bf0 + 1\<rparr>"])
           (simp_all add: block_scan_right)
    next
      case left
      show ?thesis
        using Suc.prems(1) c cur left
        by (intro step[of "bf0\<lparr>the_pointer := the_pointer bf0 - 1\<rparr>"])
           (simp_all add: block_scan_left)
    next
      case plus
      show ?thesis
        using Suc.prems(1) c cur plus
        by (intro step[of "set_cell (cell bf0 + 1) bf0"])
           (simp_all add: block_scan_plus split: if_splits)
    next
      case minus
      show ?thesis
        using Suc.prems(1) c cur minus
        by (intro step[of "set_cell (cell bf0 - 1) bf0"])
           (simp_all add: block_scan_minus split: if_splits)
    next
      case dot
      show ?thesis
        using Suc.prems(1) c cur dot
        by (intro step[of "call_output (cell bf0) bf0"])
           (simp_all add: block_scan_dot split: if_splits)
    next
      case comma
      show ?thesis
        using Suc.prems(1) c cur comma
        by (intro step[of "set_cell (word_of_int (fst (call_input bf0))) (snd (call_input bf0))"])
           (simp_all add: block_scan_comma split: if_splits)
    next
      case ign
      show ?thesis
        using Suc.prems(1) c cur ign
        by (intro step[of bf0]) (simp_all add: block_scan_ignored)
    next
      case cls
      then show ?thesis using Suc.prems(1) c cur by (simp add: block_scan_close)
    next
      case ill
      then show ?thesis using Suc.prems(1) c cur by (simp add: block_scan_illegal)
    next
      case opn
      show ?thesis
      proof (cases "matching_close ?pre c")
        case None
        then show ?thesis using Suc.prems(1) c cur opn by (simp add: block_scan_open_unmatched)
      next
        case (Some le)
        then have le: "c < le" "le < i" using len by (auto dest: matching_close_SomeD)
        have m: "matching_close code c = Some le"
          using Some assms(3) by (rule matching_close_take)
        let ?body = "take (le - Suc c) (drop (Suc c) code)"
        have body: "take (le - Suc c) (drop (Suc c) ?pre) = ?body"
          using le by (simp add: drop_take min_def)
        have run: "(case exec_loop f ?body bf0 of
              None \<Rightarrow> None
            | Some Undefined \<Rightarrow> Some Undefined
            | Some (Returned ret bf') \<Rightarrow>
                if ret \<noteq> 0 then Some (Returned ret bf')
                else block_scan f ?pre (Suc le) bf') = Some (Returned 0 bf)"
          using Suc.prems(1) c cur opn Some body by (simp add: block_scan_open_matched)
        then obtain bf1 where l: "exec_loop f ?body bf0 = Some (Returned 0 bf1)"
          and rest: "block_scan f ?pre (Suc le) bf1 = Some (Returned 0 bf)"
          by (auto split: option.splits outcome.splits if_splits)
        from Suc.IH[OF rest] le obtain g where g: "block_scan g code (Suc le) bf1 = Some r"
          by auto
        have "exec_loop (max f g) ?body bf0 = Some (Returned 0 bf1)"
          using l by (rule exec_loop_mono[rotated]) simp
        moreover have "block_scan (max f g) code (Suc le) bf1 = Some r"
          using g by (rule block_scan_mono[rotated]) simp
        ultimately have "block_scan (Suc (max f g)) code c bf0 = Some r"
          using c opn m by (simp add: block_scan_open_matched)
        then show ?thesis ..
      qed
    qed
  qed
qed


subsection \<open>Blocks of ignored characters\<close>

lemma whitespace_block:
  "\<forall>i. cnt \<le> i \<and> i < length code \<longrightarrow> ignored (code ! i) \<Longrightarrow> length code - cnt < fuel \<Longrightarrow>
   block_scan fuel code cnt bf = Some (Returned 0 bf)"
proof (induction fuel arbitrary: cnt)
  case 0
  then show ?case by simp
next
  case (Suc fuel)
  show ?case
  proof (cases "cnt < length code")
    case False
    then show ?thesis by (simp add: block_scan_end)
  next
    case True
    then have "ignored (code ! cnt)"
      using Suc.prems(1) by simp
    then show ?thesis
      using True Suc.prems Suc.IH[of "Suc cnt"] by (simp add: block_scan_ignored)
  qed
qed

subsection \<open>Runs of one instruction\<close>

lemma plus_block:
  "in_tape bf \<Longrightarrow> cnt + k = length code \<Longrightarrow>
   \<forall>i. cnt \<le> i \<and> i < length code \<longrightarrow> code ! i = CHR ''+'' \<Longrightarrow>
   block_scan (Suc k) code cnt bf = Some (Returned 0 (set_cell (cell bf + of_nat k) bf))"
proof (induction k arbitrary: cnt bf)
  case 0
  then show ?case by (simp add: block_scan_end)
next
  case (Suc k)
  then have "cnt < length code" "code ! cnt = CHR ''+''" by simp_all
  then have "block_scan (Suc (Suc k)) code cnt bf =
               block_scan (Suc k) code (Suc cnt) (set_cell (cell bf + 1) bf)"
    using Suc.prems(1) by (simp add: block_scan_plus)
  also have "\<dots> = Some (Returned 0 (set_cell (cell (set_cell (cell bf + 1) bf) + of_nat k)
                                       (set_cell (cell bf + 1) bf)))"
    using Suc.prems by (intro Suc.IH) simp_all
  finally show ?case using Suc.prems(1) by (simp add: ac_simps)
qed

lemma right_run:
  "cnt + k \<le> length code \<Longrightarrow>
   \<forall>i. cnt \<le> i \<and> i < cnt + k \<longrightarrow> code ! i = CHR ''>'' \<Longrightarrow>
   block_scan (k + f) code cnt bf =
     block_scan f code (cnt + k) (bf\<lparr>the_pointer := the_pointer bf + int k\<rparr>)"
proof (induction k arbitrary: cnt bf)
  case 0
  then show ?case by simp
next
  case (Suc k)
  then have "cnt < length code" "code ! cnt = CHR ''>''" by simp_all
  then have "block_scan (Suc k + f) code cnt bf =
               block_scan (k + f) code (Suc cnt) (bf\<lparr>the_pointer := the_pointer bf + 1\<rparr>)"
    by (simp add: block_scan_right)
  also have "\<dots> = block_scan f code (Suc cnt + k)
                      (bf\<lparr>the_pointer := the_pointer bf + 1\<rparr>
                         \<lparr>the_pointer := the_pointer (bf\<lparr>the_pointer := the_pointer bf + 1\<rparr>) + int k\<rparr>)"
    using Suc.prems by (intro Suc.IH) simp_all
  finally show ?case by (simp add: add.assoc)
qed

subsection \<open>The statuses a call can return\<close>

lemma returned_status:
  "(\<forall>code cnt bf ret bf'. block_scan f code cnt bf = Some (Returned ret bf') \<longrightarrow>
      ret \<in> {0, - 2, - 3, - 4}) \<and>
   (\<forall>body bf ret bf'. exec_loop f body bf = Some (Returned ret bf') \<longrightarrow>
      ret \<in> {0, - 2, - 3, - 4})"
proof (induction f)
  case 0
  show ?case by (simp add: block_scan.simps exec_loop.simps)
next
  case (Suc f)
  then have B: "\<And>code cnt bf ret bf'. block_scan f code cnt bf = Some (Returned ret bf') \<Longrightarrow>
      ret \<in> {0, - 2, - 3, - 4}"
    and L: "\<And>body bf ret bf'. exec_loop f body bf = Some (Returned ret bf') \<Longrightarrow>
      ret \<in> {0, - 2, - 3, - 4}"
    by blast+
  have 1: "ret = 0 \<or> ret = - 2 \<or> ret = - 3 \<or> ret = - 4"
    if "block_scan (Suc f) code cnt bf = Some (Returned ret bf')" for code cnt bf ret bf'
    using that
    apply (subst (asm) block_scan.simps)
    apply (auto simp: Let_def dest: B L split: if_splits prod.splits option.splits outcome.splits)
    done
  have 2: "ret = 0 \<or> ret = - 2 \<or> ret = - 3 \<or> ret = - 4"
    if "exec_loop (Suc f) body bf = Some (Returned ret bf')" for body bf ret bf'
    using that
    apply (subst (asm) exec_loop.simps)
    apply (auto simp: Let_def dest: B L split: if_splits prod.splits option.splits outcome.splits)
    done
  from 1 2 show ?case by auto
qed

subsection \<open>Evaluating a run step by step\<close>

lemmas step_simps =
  block_scan_end block_scan_right block_scan_left block_scan_plus block_scan_minus
  block_scan_dot block_scan_comma block_scan_close block_scan_ignored block_scan_illegal
  block_scan_open_matched block_scan_open_unmatched
  exec_loop_outside exec_loop_zero exec_loop_nonzero
  instruction_char_def ignored_def do_brainfuck_block_def

lemma do_brainfuck_whole:
  "do_brainfuck f code (length code) inp = do_brainfuck_block f code (initial inp)"
  by (simp add: do_brainfuck_def)

lemma in_tape_report [simp]: "in_tape (report d bf) = in_tape bf"
  by (simp add: in_tape_def report_def)

lemma cell_report [simp]: "cell (report d bf) = cell bf"
  by (simp add: cell_def report_def)

subsection \<open>Counting the iterations of a loop\<close>

text \<open>
  The runs of \<open>exec_loop\<close> that end with status 0 are the runs \<open>loop_iterations\<close> counts, and
  the count is unique.
\<close>

lemma loop_iterations_exec_loop:
  "loop_iterations body bf k bf' \<Longrightarrow> \<exists>f. exec_loop f body bf = Some (Returned 0 bf')"
proof (induction rule: loop_iterations.induct)
  case (leave bf body)
  then have "exec_loop (Suc 0) body bf = Some (Returned 0 bf)" by (simp add: exec_loop_zero)
  then show ?case ..
next
  case (iterate bf fuel body bf' k bf'')
  then obtain f where f: "exec_loop f body bf' = Some (Returned 0 bf'')" by blast
  have "block_scan (max fuel f) body 0 bf = Some (Returned 0 bf')"
    using iterate.hyps(3) unfolding do_brainfuck_block_def
    by (rule block_scan_mono[rotated]) simp
  moreover have "exec_loop (max fuel f) body bf' = Some (Returned 0 bf'')"
    using f by (rule exec_loop_mono[rotated]) simp
  ultimately have "exec_loop (Suc (max fuel f)) body bf = Some (Returned 0 bf'')"
    using iterate.hyps(1,2) by (simp add: exec_loop_nonzero)
  then show ?case ..
qed

lemma exec_loop_loop_iterations:
  "exec_loop f body bf = Some (Returned 0 bf') \<Longrightarrow> \<exists>k. loop_iterations body bf k bf'"
proof (induction f arbitrary: bf)
  case 0
  then show ?case by (simp add: exec_loop.simps)
next
  case (Suc f)
  show ?case
  proof (cases "in_tape bf")
    case False
    then show ?thesis using Suc.prems by (simp add: exec_loop_outside)
  next
    case True
    show ?thesis
    proof (cases "cell bf = 0")
      case True
      then show ?thesis using Suc.prems \<open>in_tape bf\<close>
        by (auto simp: exec_loop_zero intro: loop_iterations.leave)
    next
      case False
      then obtain bf1 where b: "block_scan f body 0 bf = Some (Returned 0 bf1)"
        and l: "exec_loop f body bf1 = Some (Returned 0 bf')"
        using Suc.prems True
        by (auto simp: exec_loop_nonzero split: option.splits outcome.splits if_splits)
      from Suc.IH[OF l] obtain k where "loop_iterations body bf1 k bf'" ..
      then have "loop_iterations body bf (Suc k) bf'"
        using True False b by (intro loop_iterations.iterate[of bf f body bf1])
          (simp_all add: do_brainfuck_block_def)
      then show ?thesis ..
    qed
  qed
qed

lemma loop_iterations_unique:
  "loop_iterations body bf k bf1 \<Longrightarrow> loop_iterations body bf k' bf2 \<Longrightarrow> k = k' \<and> bf1 = bf2"
proof (induction arbitrary: k' bf2 rule: loop_iterations.induct)
  case (leave bf body)
  from leave.prems leave.hyps show ?case
    by (cases rule: loop_iterations.cases) auto
next
  case (iterate bf fuel body bf' k bf'')
  from iterate.prems show ?case
  proof (cases rule: loop_iterations.cases)
    case leave
    then show ?thesis using iterate.hyps(2) by simp
  next
    case (iterate fuel2 bf2' k2)
    have "Returned 0 bf' = Returned 0 bf2'"
      using iterate.hyps(3) iterate(4) unfolding do_brainfuck_block_def
      by (rule block_scan_deterministic)
    then show ?thesis using iterate iterate.IH[of k2 bf2] by simp
  qed
qed

lemma iterations_done_exec_loop:
  "iterations_done body bf k bfk \<Longrightarrow> exec_loop f body bfk = Some r \<Longrightarrow>
   \<exists>f'. exec_loop f' body bf = Some r"
proof (induction rule: iterations_done.induct)
  case (none body bf)
  then show ?case by blast
next
  case (more bf fuel body bf1 k bf2)
  then obtain g where g: "exec_loop g body bf1 = Some r" by blast
  have "block_scan (max fuel g) body 0 bf = Some (Returned 0 bf1)"
    using more.hyps(3) unfolding do_brainfuck_block_def
    by (rule block_scan_mono[rotated]) simp
  moreover have "exec_loop (max fuel g) body bf1 = Some r"
    using g by (rule exec_loop_mono[rotated]) simp
  ultimately have "exec_loop (Suc (max fuel g)) body bf = Some r"
    using more.hyps(1,2) by (simp add: exec_loop_nonzero)
  then show ?case ..
qed

lemma loop_iterations_needs_fuel:
  "loop_iterations body bf k bf' \<Longrightarrow> f \<le> k \<Longrightarrow> exec_loop f body bf = None"
proof (induction arbitrary: f rule: loop_iterations.induct)
  case (leave bf body)
  then show ?case by (simp add: exec_loop.simps)
next
  case (iterate bf fuel body bf1 k bf2)
  show ?case
  proof (cases f)
    case 0
    then show ?thesis by (simp add: exec_loop.simps)
  next
    case (Suc g)
    then have IH: "exec_loop g body bf1 = None" using iterate.prems iterate.IH by simp
    show ?thesis
    proof (cases "block_scan g body 0 bf")
      case None
      then show ?thesis using Suc iterate.hyps(1,2) by (simp add: exec_loop_nonzero)
    next
      case (Some y)
      have "y = Returned 0 bf1"
        using block_scan_deterministic[OF Some] iterate.hyps(3)
        unfolding do_brainfuck_block_def by blast
      then show ?thesis using Suc Some IH iterate.hyps(1,2) by (simp add: exec_loop_nonzero)
    qed
  qed
qed

lemma minus_body:
  "in_tape bf \<Longrightarrow>
   block_scan (Suc (Suc fuel)) ''-'' 0 bf = Some (Returned 0 (set_cell (cell bf - 1) bf))"
  by (simp add: step_simps)

lemma clear_loop_iterations:
  "in_tape bf \<Longrightarrow> unat (cell bf) = n \<Longrightarrow> loop_iterations ''-'' bf n (set_cell 0 bf)"
proof (induction n arbitrary: bf)
  case 0
  then have z: "cell bf = 0" by (simp add: unat_eq_0)
  then have "set_cell 0 bf = bf" using set_cell_cell[of bf] by simp
  then show ?case using 0 z by (simp add: loop_iterations.leave)
next
  case (Suc n)
  let ?bf1 = "set_cell (cell bf - 1) bf"
  have nz: "cell bf \<noteq> 0" using Suc.prems(2) by auto
  then have "unat (cell bf - 1) = n" using Suc.prems(2) by (simp add: unat_minus_one)
  then have "loop_iterations ''-'' ?bf1 n (set_cell 0 ?bf1)"
    using Suc.prems(1) by (intro Suc.IH) simp_all
  then show ?case
    using Suc.prems(1) nz minus_body[of bf 0]
    by (intro loop_iterations.iterate[of bf 2 "''-''" ?bf1])
       (simp_all add: do_brainfuck_block_def eval_nat_numeral)
qed

lemma clear_loop_exec:
  "in_tape bf \<Longrightarrow> unat (cell bf) = n \<Longrightarrow>
   exec_loop (Suc (Suc n)) ''-'' bf = Some (Returned 0 (set_cell 0 bf))"
proof (induction n arbitrary: bf)
  case 0
  then have z: "cell bf = 0" by (simp add: unat_eq_0)
  then have "set_cell 0 bf = bf" using set_cell_cell[of bf] by simp
  then show ?case using 0 z by (simp add: exec_loop_zero)
next
  case (Suc n)
  let ?bf1 = "set_cell (cell bf - 1) bf"
  have nz: "cell bf \<noteq> 0" using Suc.prems(2) by auto
  then have "unat (cell bf - 1) = n" using Suc.prems(2) by (simp add: unat_minus_one)
  then have "exec_loop (Suc (Suc n)) ''-'' ?bf1 = Some (Returned 0 (set_cell 0 ?bf1))"
    using Suc.prems(1) by (intro Suc.IH) simp_all
  then show ?case
    using Suc.prems(1) nz minus_body[of bf n]
    by (simp add: exec_loop_nonzero)
qed

subsection \<open>The body of a matched loop is balanced\<close>

text \<open>
  The characters between a \<^verbatim>\<open>'['\<close> and its matching \<^verbatim>\<open>']'\<close> are balanced, and a balanced
  block never returns one of the two bracket statuses.
\<close>

lemma level_0 [simp]: "level code 0 = 0"
  by (simp add: level_def)

lemma level_Suc:
  "k < length code \<Longrightarrow>
   level code (Suc k) =
     level code k + (if code ! k = CHR ''['' then 1 else if code ! k = CHR '']'' then - 1 else 0)"
  by (simp add: level_def take_Suc_conv_app_nth)

lemma depth_after_level:
  "i \<le> j \<Longrightarrow> depth_after code i j = 1 + level code (Suc j) - level code (Suc i)"
proof -
  assume "i \<le> j"
  then have "take (Suc j) code = take (Suc i) code @ take (j - i) (drop (Suc i) code)"
    using take_add[of "Suc i" "j - i" code] by simp
  then show ?thesis by (simp add: depth_after_def level_def)
qed

lemma level_drop_take:
  "level (take n (drop m code)) k = level code (m + min k n) - level code m"
proof -
  have "take (m + min k n) code = take m code @ take (min k n) (drop m code)"
    by (rule take_add)
  then show ?thesis by (simp add: level_def min.commute)
qed

lemma matching_close_positive:
  assumes "matching_close code i = Some j" "i \<le> m" "m < j"
  shows "0 < depth_after code i m"
  using assms(2,3)
proof (induction m rule: dec_induct)
  case base
  then show ?case by (simp add: depth_after_self)
next
  case (step m)
  have j: "j < length code" using assms(1) by (auto dest: matching_close_SomeD)
  have "depth_after code i (Suc m) \<noteq> 0"
    using matching_close_first[OF assms(1), of "Suc m"] step by simp
  moreover have "0 < depth_after code i m" using step by simp
  moreover have "depth_after code i (Suc m) =
           depth_after code i m +
             (if code ! Suc m = CHR ''['' then 1 else if code ! Suc m = CHR '']'' then - 1 else 0)"
    using step j by (intro depth_after_Suc) simp_all
  ultimately show ?case by (auto split: if_splits)
qed

lemma matching_close_body_balanced:
  assumes "matching_close code i = Some j"
  shows "balanced (take (j - Suc i) (drop (Suc i) code))"
proof -
  from assms have ij: "i < j" "j < length code" and dj: "depth_after code i j = 0"
    by (auto dest: matching_close_SomeD)
  obtain j' where j': "j = Suc j'" "i \<le> j'" using ij(1) by (cases j) auto
  have len: "length (take (j - Suc i) (drop (Suc i) code)) = j - Suc i"
    using ij by simp
  have lv: "level (take (j - Suc i) (drop (Suc i) code)) k = depth_after code i (i + k) - 1"
    if "k \<le> j - Suc i" for k
    using that by (simp add: level_drop_take depth_after_level min_def)
  have pos: "0 \<le> level (take (j - Suc i) (drop (Suc i) code)) k" if "k \<le> j - Suc i" for k
    using lv[OF that] matching_close_positive[OF assms, of "i + k"] that ij by simp
  have "0 < depth_after code i j'"
    using matching_close_positive[OF assms, of j'] j' by simp
  moreover have "depth_after code i (Suc j') =
           depth_after code i j' +
             (if code ! Suc j' = CHR ''['' then 1 else if code ! Suc j' = CHR '']'' then - 1 else 0)"
    using j' ij by (intro depth_after_Suc) simp_all
  ultimately have "depth_after code i j' = 1"
    using dj j' by (auto split: if_splits)
  then have "level (take (j - Suc i) (drop (Suc i) code)) (j - Suc i) = 0"
    using lv[of "j - Suc i"] j' by simp
  with pos show ?thesis unfolding balanced_def len by simp
qed

lemma balanced_open_matched:
  assumes "balanced code" "cnt < length code" "level code cnt = 0" "code ! cnt = CHR ''[''"
  shows "\<exists>j. matching_close code cnt = Some j \<and> level code (Suc j) = 0"
proof -
  have l1: "level code (Suc cnt) = 1" using assms by (simp add: level_Suc)
  have "Suc cnt \<noteq> length code"
    using assms(1) l1 by (auto simp: balanced_def)
  then have lt: "Suc cnt < length code" using assms(2) by simp
  have "Suc (length code - 1) = length code" using lt by simp
  then have "depth_after code cnt (length code - 1) = 0"
    using assms(1) l1 lt depth_after_level[of cnt "length code - 1" code]
    by (simp add: balanced_def)
  moreover have "length code - 1 \<in> set [Suc cnt ..< length code]" using lt by auto
  ultimately have "matching_close code cnt \<noteq> None"
    unfolding matching_close_def find_None_iff by blast
  then obtain j where j: "matching_close code cnt = Some j" by auto
  then have "cnt < j" "depth_after code cnt j = 0" by (auto dest: matching_close_SomeD)
  then have "level code (Suc j) = 0" using l1 by (simp add: depth_after_level)
  with j show ?thesis by blast
qed

lemma balanced_status:
  "(\<forall>code cnt bf ret bf'. balanced code \<longrightarrow> cnt \<le> length code \<longrightarrow> level code cnt = 0 \<longrightarrow>
      block_scan f code cnt bf = Some (Returned ret bf') \<longrightarrow> ret = 0 \<or> ret = - 4) \<and>
   (\<forall>body bf ret bf'. balanced body \<longrightarrow>
      exec_loop f body bf = Some (Returned ret bf') \<longrightarrow> ret = 0 \<or> ret = - 4)"
proof (induction f)
  case 0
  show ?case by (simp add: block_scan.simps exec_loop.simps)
next
  case (Suc f)
  then have B: "\<And>code cnt bf ret bf'. balanced code \<Longrightarrow> cnt \<le> length code \<Longrightarrow> level code cnt = 0 \<Longrightarrow>
      block_scan f code cnt bf = Some (Returned ret bf') \<Longrightarrow> ret = 0 \<or> ret = - 4"
    and L: "\<And>body bf ret bf'. balanced body \<Longrightarrow>
      exec_loop f body bf = Some (Returned ret bf') \<Longrightarrow> ret = 0 \<or> ret = - 4"
    by blast+
  have 2: "ret = 0 \<or> ret = - 4"
    if bbal: "balanced body" and lrun: "exec_loop (Suc f) body bf = Some (Returned ret bf')"
    for body bf ret bf'
  proof (cases "in_tape bf \<and> cell bf \<noteq> 0")
    case False
    then show ?thesis using lrun
      by (cases "in_tape bf") (auto simp: exec_loop_outside exec_loop_zero)
  next
    case True
    then obtain y where y: "block_scan f body 0 bf = Some y"
      using lrun by (auto simp: exec_loop_nonzero split: option.splits)
    show ?thesis
    proof (cases y)
      case Undefined
      then show ?thesis using lrun True y by (simp add: exec_loop_nonzero)
    next
      case (Returned r1 bf1)
      then have r1: "r1 = 0 \<or> r1 = - 4"
        using B[of body 0 bf r1 bf1] bbal y by simp
      show ?thesis
      proof (cases "r1 = 0")
        case False
        then show ?thesis using lrun True y Returned r1 by (simp add: exec_loop_nonzero)
      next
        case z: True
        then have "exec_loop f body bf1 = Some (Returned ret bf')"
          using lrun True y Returned by (simp add: exec_loop_nonzero)
        then show ?thesis using L bbal by blast
      qed
    qed
  qed
  have 1: "ret = 0 \<or> ret = - 4"
    if bal: "balanced code" and le: "cnt \<le> length code" and lv: "level code cnt = 0"
      and run: "block_scan (Suc f) code cnt bf = Some (Returned ret bf')" for code cnt bf ret bf'
  proof (cases "cnt < length code")
    case False
    then show ?thesis using run by (simp add: block_scan_end)
  next
    case True
    have nxt: "ret = 0 \<or> ret = - 4"
      if "block_scan f code (Suc cnt) bf1 = Some (Returned ret bf')"
        "code ! cnt \<noteq> CHR ''[''" "code ! cnt \<noteq> CHR '']''" for bf1
      using B[of code "Suc cnt" bf1 ret bf'] bal True lv that by (simp add: level_Suc)
    consider (right) "code ! cnt = CHR ''>''" | (left) "code ! cnt = CHR ''<''"
      | (plus) "code ! cnt = CHR ''+''" | (minus) "code ! cnt = CHR ''-''"
      | (dot) "code ! cnt = CHR ''.''" | (comma) "code ! cnt = CHR '',''"
      | (opn) "code ! cnt = CHR ''[''" | (cls) "code ! cnt = CHR '']''"
      | (ign) "ignored (code ! cnt)"
      | (ill) "\<not> instruction_char (code ! cnt)" "\<not> ignored (code ! cnt)"
      by (auto simp: instruction_char_def)
    then show ?thesis
    proof cases
      case right
      then show ?thesis using run True by (intro nxt) (simp_all add: block_scan_right)
    next
      case left
      then show ?thesis using run True by (intro nxt) (simp_all add: block_scan_left)
    next
      case plus
      then show ?thesis using run True
        by (intro nxt[of "set_cell (cell bf + 1) bf"])
           (simp_all add: block_scan_plus split: if_splits)
    next
      case minus
      then show ?thesis using run True
        by (intro nxt[of "set_cell (cell bf - 1) bf"])
           (simp_all add: block_scan_minus split: if_splits)
    next
      case dot
      then show ?thesis using run True
        by (intro nxt[of "call_output (cell bf) bf"])
           (simp_all add: block_scan_dot split: if_splits)
    next
      case comma
      then show ?thesis using run True
        by (intro nxt[of "set_cell (word_of_int (fst (call_input bf))) (snd (call_input bf))"])
           (simp_all add: block_scan_comma split: if_splits)
    next
      case ign
      then have "code ! cnt \<noteq> CHR ''[''" "code ! cnt \<noteq> CHR '']''"
        by (auto simp: ignored_def)
      then show ?thesis using run True ign by (intro nxt[of bf]) (simp_all add: block_scan_ignored)
    next
      case ill
      then show ?thesis using run True by (simp add: block_scan_illegal)
    next
      case cls
      then have "level code (Suc cnt) = - 1" using True lv by (simp add: level_Suc)
      then show ?thesis using bal True by (auto simp: balanced_def dest: spec[of _ "Suc cnt"])
    next
      case opn
      from balanced_open_matched[OF bal True lv opn]
      obtain j where j: "matching_close code cnt = Some j" and lj: "level code (Suc j) = 0"
        by blast
      then have jl: "Suc j \<le> length code" by (auto dest: matching_close_SomeD)
      let ?body = "take (j - Suc cnt) (drop (Suc cnt) code)"
      have bb: "balanced ?body" using j by (rule matching_close_body_balanced)
      have run': "(case exec_loop f ?body bf of
              None \<Rightarrow> None
            | Some Undefined \<Rightarrow> Some Undefined
            | Some (Returned ret bf') \<Rightarrow>
                if ret \<noteq> 0 then Some (Returned ret bf')
                else block_scan f code (Suc j) bf') = Some (Returned ret bf')"
        using run True opn j by (simp add: block_scan_open_matched)
      then obtain r1 bf1 where l: "exec_loop f ?body bf = Some (Returned r1 bf1)"
        by (auto split: option.splits outcome.splits)
      then have r1: "r1 = 0 \<or> r1 = - 4" using L bb by blast
      show ?thesis
      proof (cases "r1 = 0")
        case False
        then show ?thesis using run' l r1 by simp
      next
        case z: True
        then have "block_scan f code (Suc j) bf1 = Some (Returned ret bf')"
          using run' l by simp
        then show ?thesis using B[of code "Suc j" bf1 ret bf'] bal jl lj by simp
      qed
    qed
  qed
  from 1 2 show ?case by blast
qed

lemma matched_body_status:
  assumes "matching_close code i = Some j"
    and "block_scan f (take (j - Suc i) (drop (Suc i) code)) 0 bf = Some (Returned ret bf')"
  shows "ret = 0 \<or> ret = - 4"
  using balanced_status[of f, THEN conjunct1, rule_format,
      of "take (j - Suc i) (drop (Suc i) code)" 0 bf ret bf']
    matching_close_body_balanced[OF assms(1)] assms(2)
  by simp

lemma clear_loop_needs_fuel:
  "in_tape bf \<Longrightarrow> f \<le> unat (cell bf) \<Longrightarrow> exec_loop f ''-'' bf = None"
proof (induction f arbitrary: bf)
  case 0
  then show ?case by (simp add: exec_loop.simps)
next
  case (Suc f)
  let ?bf1 = "set_cell (cell bf - 1) bf"
  have nz: "cell bf \<noteq> 0" using Suc.prems(2) by auto
  then have u: "unat (cell bf - 1) = unat (cell bf) - 1" by (simp add: unat_minus_one)
  have IH: "exec_loop f ''-'' ?bf1 = None"
    using Suc.prems u by (intro Suc.IH) simp_all
  show ?case
  proof (cases f)
    case 0
    then show ?thesis using Suc.prems(1) nz by (simp add: exec_loop_nonzero block_scan.simps)
  next
    case (Suc g)
    show ?thesis
    proof (cases g)
      case 0
      then show ?thesis using Suc Suc.prems(1) nz
        by (simp add: exec_loop_nonzero block_scan_minus block_scan.simps(1))
    next
      case (Suc h)
      then have "block_scan f ''-'' 0 bf = Some (Returned 0 ?bf1)"
        using \<open>f = Suc g\<close> Suc.prems(1) minus_body[of bf h] by simp
      then show ?thesis using Suc.prems(1) nz IH by (simp add: exec_loop_nonzero)
    qed
  qed
qed

section \<open>The claims\<close>

text \<open>
  C1. At a \<^verbatim>\<open>'['\<close> at position \<open>i\<close> of a block, the scan from \<open>i + 1\<close> with the counter at 1
  stops at the first position where the nesting depth is 0, and the characters strictly
  between are the loop body; when the depth is 0 nowhere before the end of the block, the
  call returns the unmatched-\<^verbatim>\<open>'['\<close> status \<open>-2\<close>.
\<close>

theorem loop_span_by_depth_scan:
  assumes "i < length code" and "code ! i = CHR ''[''"
  shows "(\<forall>j. matching_close code i = Some j \<longrightarrow>
            scan_loop_end code (Suc i) 1 = (j, 0) \<and>
            block_scan (Suc fuel) code i bf =
              (case exec_loop fuel (take (j - Suc i) (drop (Suc i) code)) bf of
                 None \<Rightarrow> None
               | Some Undefined \<Rightarrow> Some Undefined
               | Some (Returned ret bf') \<Rightarrow>
                   if ret \<noteq> 0 then Some (Returned ret bf')
                   else block_scan fuel code (Suc j) bf')) \<and>
         (matching_close code i = None \<longrightarrow>
            fst (scan_loop_end code (Suc i) 1) = length code \<and>
            snd (scan_loop_end code (Suc i) 1) \<noteq> 0 \<and>
            block_scan (Suc fuel) code i bf = Some (Returned (- 2) (report Unmatched_open bf)))"
proof (intro conjI allI impI)
  fix j assume m: "matching_close code i = Some j"
  show "scan_loop_end code (Suc i) 1 = (j, 0)"
    using scan_loop_end_matching_close[OF assms(1)] m by blast
  show "block_scan (Suc fuel) code i bf =
              (case exec_loop fuel (take (j - Suc i) (drop (Suc i) code)) bf of
                 None \<Rightarrow> None
               | Some Undefined \<Rightarrow> Some Undefined
               | Some (Returned ret bf') \<Rightarrow>
                   if ret \<noteq> 0 then Some (Returned ret bf')
                   else block_scan fuel code (Suc j) bf')"
    using assms m by (rule block_scan_open_matched)
next
  assume m: "matching_close code i = None"
  then obtain open_cnt where "scan_loop_end code (Suc i) 1 = (length code, open_cnt)" "open_cnt \<noteq> 0"
    using scan_loop_end_matching_close[OF assms(1)] by blast
  then show "fst (scan_loop_end code (Suc i) 1) = length code"
    and "snd (scan_loop_end code (Suc i) 1) \<noteq> 0" by simp_all
  show "block_scan (Suc fuel) code i bf = Some (Returned (- 2) (report Unmatched_open bf))"
    using assms m by (rule block_scan_open_unmatched)
qed

theorem loop_span_by_depth_scan_witness:
  "(1::nat) < length ''+[[-]+]-'' \<and> ''+[[-]+]-'' ! 1 = CHR ''['' \<and>
   matching_close ''+[[-]+]-'' 1 = Some 6 \<and>
   scan_loop_end ''+[[-]+]-'' (Suc 1) 1 = (6, 0) \<and>
   (0::nat) < length ''[+[]'' \<and> ''[+[]'' ! 0 = CHR ''['' \<and>
   matching_close ''[+[]'' 0 = None \<and>
   block_scan (Suc 0) ''[+[]'' 0 (window [0]) =
     Some (Returned (- 2) (report Unmatched_open (window [0])))"
proof -
  have h1: "(1::nat) < length ''+[[-]+]-''" and h2: "''+[[-]+]-'' ! 1 = CHR ''[''"
    and h3: "(0::nat) < length ''[+[]''" and h4: "''[+[]'' ! 0 = CHR ''[''"
    by simp_all
  have m1: "matching_close ''+[[-]+]-'' 1 = Some 6" by code_simp
  have m2: "matching_close ''[+[]'' 0 = None" by code_simp
  from loop_span_by_depth_scan[OF h1 h2, of 0 "window [0]"] m1
  have c1: "scan_loop_end ''+[[-]+]-'' (Suc 1) 1 = (6, 0)" by blast
  from loop_span_by_depth_scan[OF h3 h4, of 0 "window [0]"] m2
  have c2: "block_scan (Suc 0) ''[+[]'' 0 (window [0]) =
     Some (Returned (- 2) (report Unmatched_open (window [0])))" by blast
  from h1 h2 h3 h4 m1 m2 c1 c2 show ?thesis by blast
qed




text \<open>
  C3. \<open>iterations_done body bf k bfk\<close> says that the loop, entered in \<open>bf\<close>, has made \<open>k\<close>
  iterations whose body runs all returned 0, and is in \<open>bfk\<close>. When the body run of the
  next iteration, whichever it is, returns a non-zero status, the loop makes no further
  iteration: \<open>exec_loop\<close> gives that status and the context the failing run left, and
  nothing else. The call that was scanning the loop returns the same pair and nothing
  else, from the loop's position and hence from its start whenever the characters before
  the loop run to the loop with status 0; so does \<^verbatim>\<open>do_brainfuck\<close> when that call is the
  top-level one. The body's own status may come from a loop nested in it, so the status
  passes every enclosing call.
\<close>

theorem loop_body_failure_propagates:
  assumes "i < length code" and "code ! i = CHR ''[''" and "matching_close code i = Some j"
    and "iterations_done (take (j - Suc i) (drop (Suc i) code)) bf k bfk"
    and "in_tape bfk" and "cell bfk \<noteq> 0"
    and "do_brainfuck_block fuel (take (j - Suc i) (drop (Suc i) code)) bfk = Some (Returned ret bf')"
    and "ret \<noteq> 0"
  shows "(\<exists>f. exec_loop f (take (j - Suc i) (drop (Suc i) code)) bf = Some (Returned ret bf')) \<and>
         (\<forall>f r. exec_loop f (take (j - Suc i) (drop (Suc i) code)) bf = Some r \<longrightarrow>
                 r = Returned ret bf') \<and>
         (\<exists>f. block_scan f code i bf = Some (Returned ret bf')) \<and>
         (\<forall>f r. block_scan f code i bf = Some r \<longrightarrow> r = Returned ret bf') \<and>
         (k = 0 \<longrightarrow>
            exec_loop (Suc fuel) (take (j - Suc i) (drop (Suc i) code)) bf =
              Some (Returned ret bf') \<and>
            block_scan (Suc (Suc fuel)) code i bf = Some (Returned ret bf')) \<and>
         (\<forall>f0 bf0. do_brainfuck_block f0 (take i code) bf0 = Some (Returned 0 bf) \<longrightarrow>
            (\<exists>f. do_brainfuck_block f code bf0 = Some (Returned ret bf')) \<and>
            (\<forall>f r. do_brainfuck_block f code bf0 = Some r \<longrightarrow> r = Returned ret bf')) \<and>
         (\<forall>f0 inp. do_brainfuck_block f0 (take i code) (initial inp) = Some (Returned 0 bf) \<longrightarrow>
            (\<exists>f. do_brainfuck f code (length code) inp = Some (Returned ret bf')) \<and>
            (\<forall>f r. do_brainfuck f code (length code) inp = Some r \<longrightarrow> r = Returned ret bf'))"
proof -
  let ?body = "take (j - Suc i) (drop (Suc i) code)"
  have body: "block_scan fuel ?body 0 bfk = Some (Returned ret bf')"
    using assms(7) by (simp add: do_brainfuck_block_def)
  have lk: "exec_loop (Suc fuel) ?body bfk = Some (Returned ret bf')"
    using assms(5,6,8) body by (simp add: exec_loop_nonzero)
  from iterations_done_exec_loop[OF assms(4) lk]
  obtain g where g: "exec_loop g ?body bf = Some (Returned ret bf')" ..
  then have l: "\<exists>f. exec_loop f ?body bf = Some (Returned ret bf')" ..
  have ld: "\<forall>f r. exec_loop f ?body bf = Some r \<longrightarrow> r = Returned ret bf'"
    using exec_loop_deterministic[OF _ g] by blast
  have bg: "block_scan (Suc g) code i bf = Some (Returned ret bf')"
    using assms(1-3,8) g by (simp add: block_scan_open_matched)
  then have b: "\<exists>f. block_scan f code i bf = Some (Returned ret bf')" ..
  have bd: "\<forall>f r. block_scan f code i bf = Some r \<longrightarrow> r = Returned ret bf'"
    using block_scan_deterministic[OF _ bg] by blast
  have first: "k = 0 \<longrightarrow>
            exec_loop (Suc fuel) ?body bf = Some (Returned ret bf') \<and>
            block_scan (Suc (Suc fuel)) code i bf = Some (Returned ret bf')"
  proof
    assume "k = 0"
    with assms(4) have "bfk = bf" by (cases rule: iterations_done.cases) simp_all
    with lk have "exec_loop (Suc fuel) ?body bf = Some (Returned ret bf')" by simp
    moreover from this have "block_scan (Suc (Suc fuel)) code i bf = Some (Returned ret bf')"
      using assms(1-3,8) by (simp add: block_scan_open_matched)
    ultimately show "exec_loop (Suc fuel) ?body bf = Some (Returned ret bf') \<and>
            block_scan (Suc (Suc fuel)) code i bf = Some (Returned ret bf')" ..
  qed
  have p: "(\<exists>f. do_brainfuck_block f code bf0 = Some (Returned ret bf')) \<and>
            (\<forall>f r. do_brainfuck_block f code bf0 = Some r \<longrightarrow> r = Returned ret bf')"
    if pre: "do_brainfuck_block f0 (take i code) bf0 = Some (Returned 0 bf)" for f0 bf0
  proof -
    have "\<exists>f. block_scan f code 0 bf0 = Some (Returned ret bf')"
      using pre assms(1) bg
      by (intro block_scan_prefix[of f0 i code 0 bf0 bf]) (simp_all add: do_brainfuck_block_def)
    then obtain h where h: "block_scan h code 0 bf0 = Some (Returned ret bf')" ..
    have "\<forall>f r. block_scan f code 0 bf0 = Some r \<longrightarrow> r = Returned ret bf'"
      using block_scan_deterministic[OF _ h] by blast
    with h show ?thesis unfolding do_brainfuck_block_def by blast
  qed
  then have p1: "\<forall>f0 bf0. do_brainfuck_block f0 (take i code) bf0 = Some (Returned 0 bf) \<longrightarrow>
            (\<exists>f. do_brainfuck_block f code bf0 = Some (Returned ret bf')) \<and>
            (\<forall>f r. do_brainfuck_block f code bf0 = Some r \<longrightarrow> r = Returned ret bf')"
    by blast
  have p2: "\<forall>f0 inp. do_brainfuck_block f0 (take i code) (initial inp) = Some (Returned 0 bf) \<longrightarrow>
            (\<exists>f. do_brainfuck f code (length code) inp = Some (Returned ret bf')) \<and>
            (\<forall>f r. do_brainfuck f code (length code) inp = Some r \<longrightarrow> r = Returned ret bf')"
    unfolding do_brainfuck_whole using p by blast
  show ?thesis
    by (intro conjI) (fact l ld b bd first p1 p2)+
qed

theorem loop_body_failure_propagates_witness:
  "(1::nat) < length ''+[[@]]'' \<and> ''+[[@]]'' ! 1 = CHR ''['' \<and>
   matching_close ''+[[@]]'' 1 = Some 5 \<and>
   iterations_done (take (5 - Suc 1) (drop (Suc 1) ''+[[@]]'')) (set_cell 1 (initial [])) 0
     (set_cell 1 (initial [])) \<and>
   in_tape (set_cell 1 (initial [])) \<and> cell (set_cell 1 (initial [])) \<noteq> 0 \<and>
   do_brainfuck_block 3 (take (5 - Suc 1) (drop (Suc 1) ''+[[@]]'')) (set_cell 1 (initial [])) =
     Some (Returned (- 4) (report (Illegal_character CHR ''@'') (set_cell 1 (initial [])))) \<and>
   (- 4 :: int) \<noteq> 0 \<and>
   do_brainfuck_block 2 (take 1 ''+[[@]]'') (initial []) = Some (Returned 0 (set_cell 1 (initial []))) \<and>
   (\<exists>f. do_brainfuck f ''+[[@]]'' (length ''+[[@]]'') [] =
      Some (Returned (- 4) (report (Illegal_character CHR ''@'') (set_cell 1 (initial []))))) \<and>
   (0::nat) < length ''[>[@]+<]'' \<and> ''[>[@]+<]'' ! 0 = CHR ''['' \<and>
   matching_close ''[>[@]+<]'' 0 = Some 7 \<and>
   iterations_done (take (7 - Suc 0) (drop (Suc 0) ''[>[@]+<]'')) (window [1, 0]) 1 (window [1, 1]) \<and>
   in_tape (window [1, 1]) \<and> cell (window [1, 1]) \<noteq> 0 \<and>
   do_brainfuck_block 5 (take (7 - Suc 0) (drop (Suc 0) ''[>[@]+<]'')) (window [1, 1]) =
     Some (Returned (- 4)
       (report (Illegal_character CHR ''@'') ((window [1, 1])\<lparr>the_pointer := 1\<rparr>))) \<and>
   (\<exists>f. exec_loop f (take (7 - Suc 0) (drop (Suc 0) ''[>[@]+<]'')) (window [1, 0]) =
      Some (Returned (- 4)
        (report (Illegal_character CHR ''@'') ((window [1, 1])\<lparr>the_pointer := 1\<rparr>)))) \<and>
   (\<exists>f. block_scan f ''[>[@]+<]'' 0 (window [1, 0]) =
      Some (Returned (- 4)
        (report (Illegal_character CHR ''@'') ((window [1, 1])\<lparr>the_pointer := 1\<rparr>))))"
proof -
  let ?bf = "set_cell 1 (initial [])"
  have h1: "(1::nat) < length ''+[[@]]''" and h2: "''+[[@]]'' ! 1 = CHR ''[''" by simp_all
  have h3: "matching_close ''+[[@]]'' 1 = Some 5" by code_simp
  have h3': "iterations_done (take (5 - Suc 1) (drop (Suc 1) ''+[[@]]'')) ?bf 0 ?bf"
    by (rule iterations_done.none)
  have h4: "in_tape ?bf" and h5: "cell ?bf \<noteq> 0" by simp_all
  have m: "matching_close ''[@]'' 0 = Some 2" by code_simp
  have h6: "do_brainfuck_block 3 (take (5 - Suc 1) (drop (Suc 1) ''+[[@]]'')) ?bf =
     Some (Returned (- 4) (report (Illegal_character CHR ''@'') ?bf))"
    by (simp add: eval_nat_numeral step_simps m)
  have h7: "(- 4 :: int) \<noteq> 0" by simp
  have pre: "do_brainfuck_block 2 (take 1 ''+[[@]]'') (initial []) = Some (Returned 0 ?bf)"
    by (simp add: eval_nat_numeral step_simps)
  note t = loop_body_failure_propagates[OF h1 h2 h3 h3' h4 h5 h6 h7]
  have c1: "\<exists>f. do_brainfuck f ''+[[@]]'' (length ''+[[@]]'') [] =
      Some (Returned (- 4) (report (Illegal_character CHR ''@'') ?bf))"
    using t[THEN conjunct2, THEN conjunct2, THEN conjunct2, THEN conjunct2, THEN conjunct2,
        THEN conjunct2] pre by blast
  let ?w = "report (Illegal_character CHR ''@'') ((window [1, 1])\<lparr>the_pointer := 1\<rparr>)"
  have g1: "(0::nat) < length ''[>[@]+<]''" and g2: "''[>[@]+<]'' ! 0 = CHR ''[''" by simp_all
  have g3: "matching_close ''[>[@]+<]'' 0 = Some 7" by code_simp
  have g4: "in_tape (window [1, 0])" and g5: "cell (window [1, 0]) \<noteq> 0"
    and g6: "in_tape (window [1, 1])" and g7: "cell (window [1, 1]) \<noteq> 0"
    by (simp_all add: in_tape_def cell_def window_def)
  have it1: "do_brainfuck_block 6 (take (7 - Suc 0) (drop (Suc 0) ''[>[@]+<]'')) (window [1, 0]) =
     Some (Returned 0 (window [1, 1]))"
    by code_simp
  have g8: "iterations_done (take (7 - Suc 0) (drop (Suc 0) ''[>[@]+<]'')) (window [1, 0]) 1
              (window [1, 1])"
    unfolding One_nat_def
    using g4 g5 it1 by (rule iterations_done.more) (rule iterations_done.none)
  have g9: "do_brainfuck_block 5 (take (7 - Suc 0) (drop (Suc 0) ''[>[@]+<]'')) (window [1, 1]) =
     Some (Returned (- 4) ?w)"
    by code_simp
  note u = loop_body_failure_propagates[OF g1 g2 g3 g8 g6 g7 g9 h7]
  have c2: "\<exists>f. exec_loop f (take (7 - Suc 0) (drop (Suc 0) ''[>[@]+<]'')) (window [1, 0]) =
      Some (Returned (- 4) ?w)"
    by (rule u[THEN conjunct1])
  have c3: "\<exists>f. block_scan f ''[>[@]+<]'' 0 (window [1, 0]) = Some (Returned (- 4) ?w)"
    by (rule u[THEN conjunct2, THEN conjunct2, THEN conjunct1])
  from h1 h2 h3 h3' h4 h5 h6 h7 pre c1 g1 g2 g3 g8 g6 g7 g9 c2 c3 show ?thesis
    by (intro conjI)
qed

text \<open>
  C4. \<^verbatim>\<open>[+\<close> returns \<open>-2\<close> (unmatched \<^verbatim>\<open>'['\<close>) before the \<^verbatim>\<open>+\<close> is run: the array is as it
  was. \<^verbatim>\<open>+]\<close> returns \<open>-3\<close> (unmatched \<^verbatim>\<open>']'\<close>) after the one \<^verbatim>\<open>+\<close>, whatever follows the
  \<^verbatim>\<open>]\<close>. The two statuses differ and neither is 0. A \<^verbatim>\<open>']'\<close> that the scan of a block
  reaches always returns \<open>-3\<close> in the context it was reached in.
\<close>

theorem unmatched_brackets:
  "do_brainfuck (Suc fuel) ''[+'' 2 inp =
     Some (Returned (- 2) (report Unmatched_open (initial inp))) \<and>
   do_brainfuck (Suc (Suc fuel)) (''+]'' @ rest) (2 + length rest) inp =
     Some (Returned (- 3) (report Unmatched_close (set_cell 1 (initial inp)))) \<and>
   (\<forall>s s' bf bf'.
      do_brainfuck (Suc fuel) ''[+'' 2 inp = Some (Returned s bf) \<longrightarrow>
      do_brainfuck (Suc (Suc fuel)) ''+]'' 2 inp = Some (Returned s' bf') \<longrightarrow>
      s \<noteq> s' \<and> s \<noteq> 0 \<and> s' \<noteq> 0) \<and>
   (cnt < length code \<longrightarrow> code ! cnt = CHR '']'' \<longrightarrow>
      block_scan (Suc fuel) code cnt b = Some (Returned (- 3) (report Unmatched_close b)))"
proof -
  have m: "matching_close ''[+'' 0 = None" by code_simp
  have a: "do_brainfuck (Suc fuel) ''[+'' 2 inp =
     Some (Returned (- 2) (report Unmatched_open (initial inp)))"
    by (simp add: do_brainfuck_def step_simps m)
  have b: "do_brainfuck (Suc (Suc fuel)) (''+]'' @ rest) (2 + length rest) inp =
     Some (Returned (- 3) (report Unmatched_close (set_cell 1 (initial inp))))" for rest
    by (simp add: do_brainfuck_def step_simps)
  from a b[of "[]"] b[of rest] show ?thesis
    by (auto simp: block_scan_close)
qed

theorem unmatched_brackets_witness:
  "(3::nat) < length ''[-]]+'' \<and> ''[-]]+'' ! 3 = CHR '']'' \<and>
   block_scan (Suc 0) ''[-]]+'' 3 (window [0]) =
     Some (Returned (- 3) (report Unmatched_close (window [0]))) \<and>
   do_brainfuck (Suc 0) ''[+'' 2 [] = Some (Returned (- 2) (report Unmatched_open (initial []))) \<and>
   do_brainfuck (Suc (Suc 0)) ''+]'' 2 [] =
     Some (Returned (- 3) (report Unmatched_close (set_cell 1 (initial []))))"
proof -
  have h1: "(3::nat) < length ''[-]]+''" and h2: "''[-]]+'' ! 3 = CHR '']''" by simp_all
  from unmatched_brackets[where fuel = 0 and inp = "[]" and rest = "[]" and cnt = 3
      and code = "''[-]]+''" and b = "window [0]"] h1 h2
  show ?thesis by simp
qed

text \<open>
  C5. A character that is none of the eight instructions and none of the six whitespace
  characters returns \<open>-4\<close> as soon as the scan reaches it, in the context it was reached
  in: nothing after it is run, whatever follows. A whitespace character leaves the
  context as it is and the scan moves to the next character; a block of whitespace only
  returns 0 with nothing changed.
\<close>

theorem illegal_character_stops_whitespace_skipped:
  "(cnt < length code \<longrightarrow> \<not> instruction_char (code ! cnt) \<longrightarrow> \<not> whitespace (code ! cnt) \<longrightarrow>
      block_scan (Suc fuel) code cnt bf =
        Some (Returned (- 4) (report (Illegal_character (code ! cnt)) bf))) \<and>
   (\<not> instruction_char c \<longrightarrow> \<not> whitespace c \<longrightarrow>
      do_brainfuck_block f0 pre bf0 = Some (Returned 0 bf) \<longrightarrow>
      (\<exists>f. do_brainfuck_block f (pre @ c # post) bf0 =
              Some (Returned (- 4) (report (Illegal_character c) bf)))) \<and>
   (cnt < length code \<longrightarrow> whitespace (code ! cnt) \<longrightarrow>
      block_scan (Suc fuel) code cnt bf = block_scan fuel code (Suc cnt) bf) \<and>
   ((\<forall>c \<in> set code. whitespace c) \<longrightarrow>
      do_brainfuck_block (Suc (length code)) code bf = Some (Returned 0 bf))"
proof (intro conjI impI)
  assume "cnt < length code" "\<not> instruction_char (code ! cnt)" "\<not> whitespace (code ! cnt)"
  then show "block_scan (Suc fuel) code cnt bf =
        Some (Returned (- 4) (report (Illegal_character (code ! cnt)) bf))"
    by (simp add: block_scan_illegal ignored_whitespace)
next
  assume c: "\<not> instruction_char c" "\<not> whitespace c"
    and pre: "do_brainfuck_block f0 pre bf0 = Some (Returned 0 bf)"
  let ?code = "pre @ c # post"
  have "block_scan (Suc 0) ?code (length pre) bf =
          Some (Returned (- 4) (report (Illegal_character c) bf))"
    using c by (simp add: block_scan_illegal ignored_whitespace)
  moreover have "block_scan f0 (take (length pre) ?code) 0 bf0 = Some (Returned 0 bf)"
    using pre by (simp add: do_brainfuck_block_def)
  ultimately show "\<exists>f. do_brainfuck_block f ?code bf0 =
              Some (Returned (- 4) (report (Illegal_character c) bf))"
    unfolding do_brainfuck_block_def
    by (intro block_scan_prefix[of f0 "length pre" ?code 0 bf0 bf]) simp_all
next
  assume "cnt < length code" "whitespace (code ! cnt)"
  then show "block_scan (Suc fuel) code cnt bf = block_scan fuel code (Suc cnt) bf"
    by (simp add: block_scan_ignored ignored_whitespace)
next
  assume "\<forall>c \<in> set code. whitespace c"
  then show "do_brainfuck_block (Suc (length code)) code bf = Some (Returned 0 bf)"
    unfolding do_brainfuck_block_def
    by (intro whitespace_block) (simp_all add: ignored_whitespace)
qed

theorem illegal_character_stops_whitespace_skipped_witness:
  "(1::nat) < length ''+@+'' \<and> \<not> instruction_char (''+@+'' ! 1) \<and> \<not> whitespace (''+@+'' ! 1) \<and>
   block_scan (Suc 0) ''+@+'' 1 (window [1]) =
     Some (Returned (- 4) (report (Illegal_character CHR ''@'') (window [1]))) \<and>
   do_brainfuck_block 2 ''+'' (window [0]) = Some (Returned 0 (window [1])) \<and>
   (\<exists>f. do_brainfuck_block f (''+'' @ CHR ''@'' # ''+'') (window [0]) =
      Some (Returned (- 4) (report (Illegal_character CHR ''@'') (window [1])))) \<and>
   (0::nat) < length '' +'' \<and> whitespace ('' +'' ! 0) \<and>
   block_scan (Suc 2) '' +'' 0 (window [0]) = block_scan 2 '' +'' (Suc 0) (window [0]) \<and>
   whitespace CHR '' '' \<and> whitespace (CHR 0x09) \<and> whitespace (CHR 0x0D) \<and>
   whitespace (CHR 0x0A) \<and> whitespace (CHR 0x0B) \<and> whitespace (CHR 0x0C) \<and>
   do_brainfuck_block (Suc (length [CHR '' '', CHR 0x09, CHR 0x0D, CHR 0x0A, CHR 0x0B, CHR 0x0C]))
     [CHR '' '', CHR 0x09, CHR 0x0D, CHR 0x0A, CHR 0x0B, CHR 0x0C] (window [7]) =
     Some (Returned 0 (window [7]))"
proof -
  have h1: "(1::nat) < length ''+@+''" and h2: "\<not> instruction_char (''+@+'' ! 1)"
    and h3: "\<not> whitespace (''+@+'' ! 1)"
    and h2': "\<not> instruction_char CHR ''@''" and h3': "\<not> whitespace CHR ''@''"
    by (simp_all add: instruction_char_def whitespace_def)
  have h4: "do_brainfuck_block 2 ''+'' (window [0]) = Some (Returned 0 (window [1]))"
    by code_simp
  have h5: "(0::nat) < length '' +''" and h6: "whitespace ('' +'' ! 0)"
    by (simp_all add: whitespace_def)
  have h7: "\<forall>c \<in> set [CHR '' '', CHR 0x09, CHR 0x0D, CHR 0x0A, CHR 0x0B, CHR 0x0C]. whitespace c"
    by (simp add: whitespace_def)
  note t1 = illegal_character_stops_whitespace_skipped[of 1 "''+@+''" 0 "window [1]"
      "CHR ''@''" 2 "''+''" "window [0]" "''+''"]
  note t2 = illegal_character_stops_whitespace_skipped[of 0 "'' +''" 2 "window [0]"
      "CHR ''@''" 2 "''+''" "window [0]" "''+''"]
  note t3 = illegal_character_stops_whitespace_skipped[of 0
      "[CHR '' '', CHR 0x09, CHR 0x0D, CHR 0x0A, CHR 0x0B, CHR 0x0C]" 0 "window [7]"
      "CHR ''@''" 2 "''+''" "window [0]" "''+''"]
  have c1: "block_scan (Suc 0) ''+@+'' 1 (window [1]) =
     Some (Returned (- 4) (report (Illegal_character CHR ''@'') (window [1])))"
    using t1 h1 h2 h3 by simp
  have c2: "\<exists>f. do_brainfuck_block f (''+'' @ CHR ''@'' # ''+'') (window [0]) =
      Some (Returned (- 4) (report (Illegal_character CHR ''@'') (window [1])))"
    using t1 h2' h3' h4 by blast
  have c3: "block_scan (Suc 2) '' +'' 0 (window [0]) = block_scan 2 '' +'' (Suc 0) (window [0])"
    using t2 h5 h6 by blast
  have c4: "do_brainfuck_block (Suc (length [CHR '' '', CHR 0x09, CHR 0x0D, CHR 0x0A, CHR 0x0B, CHR 0x0C]))
     [CHR '' '', CHR 0x09, CHR 0x0D, CHR 0x0A, CHR 0x0B, CHR 0x0C] (window [7]) =
     Some (Returned 0 (window [7]))"
    using t3 h7 by blast
  have w: "whitespace CHR '' ''" "whitespace (CHR 0x09)" "whitespace (CHR 0x0D)"
    "whitespace (CHR 0x0A)" "whitespace (CHR 0x0B)" "whitespace (CHR 0x0C)"
    by (simp_all add: whitespace_def)
  from h1 h2 h3 c1 h4 c2 h5 h6 c3 w c4 show ?thesis by (intro conjI)
qed


text \<open>
  C6. With the pointer inside the array, \<^verbatim>\<open>+\<close> replaces the cell value \<open>v\<close> by
  \<open>(v + 1) mod 256\<close> and \<^verbatim>\<open>-\<close> by \<open>(v - 1) mod 256\<close>; \<^verbatim>\<open>+-\<close> leaves the whole context as it
  was, and so do 256 \<^verbatim>\<open>+\<close> in a row, in particular on a cell that holds 0.
\<close>

theorem increment_decrement_wrap:
  assumes "in_tape bf"
  shows "do_brainfuck_block (Suc (Suc fuel)) ''+'' bf =
           Some (Returned 0 (set_cell (cell bf + 1) bf)) \<and>
         uint (cell bf + 1) = (uint (cell bf) + 1) mod 256 \<and>
         do_brainfuck_block (Suc (Suc fuel)) ''-'' bf =
           Some (Returned 0 (set_cell (cell bf - 1) bf)) \<and>
         uint (cell bf - 1) = (uint (cell bf) - 1) mod 256 \<and>
         do_brainfuck_block (Suc (Suc (Suc fuel))) ''+-'' bf = Some (Returned 0 bf) \<and>
         (\<forall>f \<ge> 257. do_brainfuck_block f (replicate 256 CHR ''+'') bf = Some (Returned 0 bf)) \<and>
         (cell bf = 0 \<longrightarrow>
            do_brainfuck_block (Suc 255) (replicate 255 CHR ''+'') bf =
              Some (Returned 0 (set_cell 255 bf)) \<and>
            do_brainfuck_block (Suc (Suc 0)) ''+'' (set_cell 255 bf) = Some (Returned 0 bf))"
proof -
  have a: "do_brainfuck_block (Suc (Suc fuel)) ''+'' bf =
           Some (Returned 0 (set_cell (cell bf + 1) bf))"
    using assms by (simp add: step_simps)
  have b: "do_brainfuck_block (Suc (Suc fuel)) ''-'' bf =
           Some (Returned 0 (set_cell (cell bf - 1) bf))"
    using assms by (simp add: step_simps)
  have c: "do_brainfuck_block (Suc (Suc (Suc fuel))) ''+-'' bf = Some (Returned 0 bf)"
    using assms by (simp add: step_simps)
  have u1: "uint (cell bf + 1) = (uint (cell bf) + 1) mod 256"
    by (simp add: uint_word_ariths)
  have u2: "uint (cell bf - 1) = (uint (cell bf) - 1) mod 256"
    by (simp add: uint_word_ariths)
  have d: "do_brainfuck_block (Suc k) (replicate k CHR ''+'') bf =
             Some (Returned 0 (set_cell (cell bf + of_nat k) bf))" for k
    unfolding do_brainfuck_block_def using assms by (intro plus_block) simp_all
  have z: "(of_nat 256 :: byte) = 0" by simp
  have "do_brainfuck_block (Suc 256) (replicate 256 CHR ''+'') bf = Some (Returned 0 bf)"
    using d[of 256] by (simp only: z add_0_right set_cell_cell)
  then have e: "do_brainfuck_block f (replicate 256 CHR ''+'') bf = Some (Returned 0 bf)"
    if "257 \<le> f" for f
    unfolding do_brainfuck_block_def using that by (elim block_scan_mono[rotated]) simp
  have f: "do_brainfuck_block (Suc 255) (replicate 255 CHR ''+'') bf =
              Some (Returned 0 (set_cell 255 bf))" if "cell bf = 0"
    using d[of 255] that by simp
  have g: "do_brainfuck_block (Suc (Suc 0)) ''+'' (set_cell 255 bf) = Some (Returned 0 bf)"
    if "cell bf = 0"
  proof -
    have z': "(256 :: byte) = 0" by simp
    have "set_cell (cell (set_cell 255 bf) + 1) (set_cell 255 bf) = set_cell (cell bf) bf"
      using assms that by (simp add: z' del: set_cell_cell)
    then show ?thesis using assms by (simp add: step_simps)
  qed
  from a b c u1 u2 e f g assms show ?thesis by simp
qed

theorem increment_decrement_wrap_witness:
  "in_tape (window [255, 7]) \<and>
   do_brainfuck_block (Suc (Suc 0)) ''+'' (window [255, 7]) = Some (Returned 0 (window [0, 7])) \<and>
   do_brainfuck_block (Suc (Suc 0)) ''-'' (window [0, 7]) = Some (Returned 0 (window [255, 7])) \<and>
   cell (window [0, 7]) = 0 \<and>
   do_brainfuck_block 257 (replicate 256 CHR ''+'') (window [0, 7]) =
     Some (Returned 0 (window [0, 7]))"
proof -
  have h: "in_tape (window [255, 7])" and h': "in_tape (window [0, 7])"
    by (simp_all add: in_tape_def window_def)
  have s1: "set_cell (cell (window [255, 7]) + 1) (window [255, 7]) = window [0, 7]"
    and s2: "set_cell (cell (window [0, 7]) - 1) (window [0, 7]) = window [255, 7]"
    by (simp_all add: set_cell_def cell_def window_def)
  have z: "cell (window [0, 7]) = 0" by (simp add: cell_def window_def)
  from increment_decrement_wrap[OF h, of 0] increment_decrement_wrap[OF h', of 0] h s1 s2 z
  show ?thesis by simp
qed

text \<open>
  C7. \<^verbatim>\<open>,.\<close> stores the value the \<^verbatim>\<open>input\<close> hook returns, cut to eight bits, in the
  current cell and hands that cell to the \<^verbatim>\<open>output\<close> hook: one value is taken from the
  input and one byte is written. For a hook value from 0 to 255 the byte written is that
  value.
\<close>

theorem read_then_emit:
  "do_brainfuck (Suc (Suc (Suc fuel))) '',.'' 2 (v # rest) =
     Some (Returned 0 (call_output (word_of_int v) (set_cell (word_of_int v) (initial rest)))) \<and>
   cell (call_output (word_of_int v) (set_cell (word_of_int v) (initial rest))) = word_of_int v \<and>
   outputs (call_output (word_of_int v) (set_cell (word_of_int v) (initial rest))) = [word_of_int v] \<and>
   inputs (call_output (word_of_int v) (set_cell (word_of_int v) (initial rest))) = rest \<and>
   uint (word_of_int v :: byte) = v mod 256 \<and>
   (0 \<le> v \<and> v < 256 \<longrightarrow> uint (word_of_int v :: byte) = v)"
proof -
  have "do_brainfuck (Suc (Suc (Suc fuel))) '',.'' 2 (v # rest) =
     Some (Returned 0 (call_output (word_of_int v) (set_cell (word_of_int v) (initial rest))))"
    by (simp add: do_brainfuck_def step_simps)
  moreover have "outputs (call_output (word_of_int v) (set_cell (word_of_int v) (initial rest)))
                   = [word_of_int v]"
    and "inputs (call_output (word_of_int v) (set_cell (word_of_int v) (initial rest))) = rest"
    by (simp_all add: call_output_def set_cell_def initial_def)
  moreover have "uint (word_of_int v :: byte) = v mod 256"
    by (simp add: uint_word_of_int)
  ultimately show ?thesis by simp
qed

theorem read_then_emit_witness:
  "(0::int) \<le> 200 \<and> (200::int) < 256 \<and> uint (word_of_int 200 :: byte) = 200 \<and>
   do_brainfuck (Suc (Suc (Suc 0))) '',.'' 2 [200] =
     Some (Returned 0 (call_output 200 (set_cell 200 (initial []))))"
  using read_then_emit[of 0 200 "[]"] by simp


text \<open>
  C9. \<^verbatim>\<open>>\<close> and \<^verbatim>\<open><\<close> add one to and take one from the pointer, whatever its value, and
  the scan goes on: there is no test, no clamping and no wrap-around. So \<^verbatim>\<open><\<close> at the
  start returns 0 with the pointer at \<open>-1\<close>, and \<open>k\<close> \<^verbatim>\<open>>\<close> in a row with \<open>k\<close> at least
  \<open>MAX_BRAINFUCK\<close> return 0 with the pointer at \<open>k\<close>, both outside the array. An
  instruction that then reads or writes the cell is undefined behaviour. No call ever
  returns a status other than 0, \<open>-2\<close>, \<open>-3\<close> and \<open>-4\<close>: none reports the pointer.
\<close>

theorem pointer_moves_unchecked:
  "(cnt < length code \<longrightarrow> code ! cnt = CHR ''>'' \<longrightarrow>
      block_scan (Suc fuel) code cnt bf =
        block_scan fuel code (Suc cnt) (bf\<lparr>the_pointer := the_pointer bf + 1\<rparr>)) \<and>
   (cnt < length code \<longrightarrow> code ! cnt = CHR ''<'' \<longrightarrow>
      block_scan (Suc fuel) code cnt bf =
        block_scan fuel code (Suc cnt) (bf\<lparr>the_pointer := the_pointer bf - 1\<rparr>)) \<and>
   do_brainfuck (Suc (Suc fuel)) ''<'' 1 inp =
     Some (Returned 0 ((initial inp)\<lparr>the_pointer := - 1\<rparr>)) \<and>
   \<not> in_tape ((initial inp)\<lparr>the_pointer := - 1\<rparr>) \<and>
   do_brainfuck (Suc (Suc fuel)) ''<+'' 2 inp = Some Undefined \<and>
   (MAX_BRAINFUCK \<le> k \<longrightarrow>
      do_brainfuck (Suc k) (replicate k CHR ''>'') k inp =
        Some (Returned 0 ((initial inp)\<lparr>the_pointer := int k\<rparr>)) \<and>
      \<not> in_tape ((initial inp)\<lparr>the_pointer := int k\<rparr>) \<and>
      do_brainfuck (Suc (Suc k)) (replicate k CHR ''>'' @ ''.'') (Suc k) inp = Some Undefined) \<and>
   (\<not> in_tape bf \<longrightarrow> cnt < length code \<longrightarrow> code ! cnt \<in> set ''+-.,'' \<longrightarrow>
      block_scan (Suc fuel) code cnt bf = Some Undefined) \<and>
   (\<forall>ret bf'. block_scan fuel code cnt bf = Some (Returned ret bf') \<longrightarrow>
      ret \<in> {0, - 2, - 3, - 4})"
proof -
  have out_left: "\<not> in_tape ((initial inp)\<lparr>the_pointer := - 1\<rparr>)"
    by (simp add: in_tape_def)
  have a: "do_brainfuck (Suc (Suc fuel)) ''<'' 1 inp =
     Some (Returned 0 ((initial inp)\<lparr>the_pointer := - 1\<rparr>))"
    by (simp add: do_brainfuck_def step_simps initial_def)
  have b: "do_brainfuck (Suc (Suc fuel)) ''<+'' 2 inp = Some Undefined"
    by (simp add: do_brainfuck_def step_simps in_tape_def initial_def)
  have ptr0: "the_pointer (initial inp) = 0" by (simp add: initial_def)
  have c: "do_brainfuck (Suc k) (replicate k CHR ''>'') k inp =
        Some (Returned 0 ((initial inp)\<lparr>the_pointer := int k\<rparr>))"
    using right_run[of 0 k "replicate k CHR ''>''" "Suc 0" "initial inp"]
    by (simp add: do_brainfuck_def do_brainfuck_block_def block_scan_end ptr0)
  have out_right: "\<not> in_tape ((initial inp)\<lparr>the_pointer := int k\<rparr>)" if "MAX_BRAINFUCK \<le> k"
    using that by (simp add: in_tape_def initial_def)
  have d: "do_brainfuck (Suc (Suc k)) (replicate k CHR ''>'' @ ''.'') (Suc k) inp = Some Undefined"
    if "MAX_BRAINFUCK \<le> k"
  proof -
    have "block_scan (k + Suc (Suc 0)) (replicate k CHR ''>'' @ ''.'') 0 (initial inp) =
            block_scan (Suc (Suc 0)) (replicate k CHR ''>'' @ ''.'') (0 + k)
              ((initial inp)\<lparr>the_pointer := the_pointer (initial inp) + int k\<rparr>)"
      by (intro right_run) (simp_all add: nth_append)
    also have "\<dots> = Some Undefined"
      using out_right[OF that] by (simp add: block_scan_dot nth_append ptr0)
    finally show ?thesis by (simp add: do_brainfuck_def do_brainfuck_block_def)
  qed
  have e: "block_scan (Suc fuel) code cnt bf = Some Undefined"
    if "\<not> in_tape bf" "cnt < length code" "code ! cnt \<in> set ''+-.,''"
    using that
    by (auto simp: block_scan_plus block_scan_minus block_scan_dot block_scan_comma
        in_tape_call_input)
  have f: "ret \<in> {0, - 2, - 3, - 4}" if "block_scan fuel code cnt bf = Some (Returned ret bf')"
    for ret bf'
    using returned_status[of fuel] that by blast
  from a b c d e f out_left out_right show ?thesis
    by (simp add: block_scan_right block_scan_left)
qed

theorem pointer_moves_unchecked_witness:
  "(0::nat) < length ''<>'' \<and> ''<>'' ! 0 = CHR ''<'' \<and>
   block_scan (Suc 3) ''<>'' 0 (window [5]) =
     block_scan 3 ''<>'' (Suc 0) ((window [5])\<lparr>the_pointer := the_pointer (window [5]) - 1\<rparr>) \<and>
   (1::nat) < length ''<>'' \<and> ''<>'' ! 1 = CHR ''>'' \<and>
   block_scan (Suc 3) ''<>'' 1 (window [5]) =
     block_scan 3 ''<>'' (Suc 1) ((window [5])\<lparr>the_pointer := the_pointer (window [5]) + 1\<rparr>) \<and>
   MAX_BRAINFUCK \<le> 30001 \<and>
   do_brainfuck (Suc 30001) (replicate 30001 CHR ''>'') 30001 [] =
     Some (Returned 0 ((initial [])\<lparr>the_pointer := 30001\<rparr>)) \<and>
   do_brainfuck (Suc (Suc 30001)) (replicate 30001 CHR ''>'' @ ''.'') (Suc 30001) [] =
     Some Undefined \<and>
   \<not> in_tape ((window [5])\<lparr>the_pointer := 1\<rparr>) \<and> (0::nat) < length ''+'' \<and>
   ''+'' ! 0 \<in> set ''+-.,'' \<and>
   block_scan (Suc 0) ''+'' 0 ((window [5])\<lparr>the_pointer := 1\<rparr>) = Some Undefined \<and>
   block_scan 3 ''<]'' 0 (window [5]) =
     Some (Returned (- 3) (report Unmatched_close ((window [5])\<lparr>the_pointer := - 1\<rparr>))) \<and>
   (- 3 :: int) \<in> {0, - 2, - 3, - 4}"
proof -
  have h1: "(0::nat) < length ''<>''" and h2: "''<>'' ! 0 = CHR ''<''"
    and h1': "(1::nat) < length ''<>''" and h2': "''<>'' ! 1 = CHR ''>''" by simp_all
  have h3: "MAX_BRAINFUCK \<le> 30001" by (simp add: MAX_BRAINFUCK_def)
  have h4: "\<not> in_tape ((window [5])\<lparr>the_pointer := 1\<rparr>)"
    by (simp add: in_tape_def window_def)
  have h5: "(0::nat) < length ''+''" and h6: "''+'' ! 0 \<in> set ''+-.,''" by simp_all
  have h7: "block_scan 3 ''<]'' 0 (window [5]) =
     Some (Returned (- 3) (report Unmatched_close ((window [5])\<lparr>the_pointer := - 1\<rparr>)))"
    by (simp add: eval_nat_numeral step_simps window_def)
  note t1 = pointer_moves_unchecked[where cnt = 0 and code = "''<>''" and fuel = 3
      and bf = "window [5]" and k = 30001 and inp = "[]"]
  note t1' = pointer_moves_unchecked[where cnt = 1 and code = "''<>''" and fuel = 3
      and bf = "window [5]" and k = 30001 and inp = "[]"]
  note t2 = pointer_moves_unchecked[where cnt = 0 and code = "''+''" and fuel = 0
      and bf = "(window [5])\<lparr>the_pointer := 1\<rparr>" and k = 30001 and inp = "[]"]
  note t3 = pointer_moves_unchecked[where cnt = 0 and code = "''<]''" and fuel = 3
      and bf = "window [5]" and k = 30001 and inp = "[]"]
  have c1: "block_scan (Suc 3) ''<>'' 0 (window [5]) =
     block_scan 3 ''<>'' (Suc 0) ((window [5])\<lparr>the_pointer := the_pointer (window [5]) - 1\<rparr>)"
    using t1 h1 h2 by blast
  have c1': "block_scan (Suc 3) ''<>'' 1 (window [5]) =
     block_scan 3 ''<>'' (Suc 1) ((window [5])\<lparr>the_pointer := the_pointer (window [5]) + 1\<rparr>)"
    using t1' h1' h2' by blast
  have c2: "do_brainfuck (Suc 30001) (replicate 30001 CHR ''>'') 30001 [] =
     Some (Returned 0 ((initial [])\<lparr>the_pointer := 30001\<rparr>))"
    and c3: "do_brainfuck (Suc (Suc 30001)) (replicate 30001 CHR ''>'' @ ''.'') (Suc 30001) [] =
     Some Undefined"
    using t1 h3 by simp_all
  have c4: "block_scan (Suc 0) ''+'' 0 ((window [5])\<lparr>the_pointer := 1\<rparr>) = Some Undefined"
    using t2 h4 h5 h6 by blast
  have c5: "(- 3 :: int) \<in> {0, - 2, - 3, - 4}"
    using t3 h7 by blast
  from h1 h2 c1 h1' h2' c1' h3 c2 c3 h4 h5 h6 c4 h7 c5 show ?thesis by (intro conjI)
qed

text \<open>
  C8. With the pointer inside the array and the current cell holding \<open>N\<close> (a byte, so
  below 256), \<^verbatim>\<open>[-]\<close> returns 0 with that cell at 0 and nothing else changed, for every
  fuel from \<open>N + 3\<close> on. Its loop makes exactly \<open>N\<close> iterations:
  \<^item> every iteration of \<open>exec_loop\<close> takes one unit of its fuel, and \<open>exec_loop\<close> on the body
    \<^verbatim>\<open>-\<close> does not return with \<open>N\<close> units or fewer, while it returns with \<open>N + 2\<close>;
  \<^item> \<open>loop_iterations body bf k bf'\<close> says that the loop, entered in \<open>bf\<close>, runs its body
    exactly \<open>k\<close> times and leaves in \<open>bf'\<close>; for every body and context these are exactly the
    runs of \<open>exec_loop\<close> that return 0, a run of \<open>k\<close> iterations needs more than \<open>k\<close> units of
    fuel, the number is unique, and for the body \<^verbatim>\<open>-\<close> it is \<open>N\<close>.
\<close>

theorem clear_loop_runs_cell_value_times:
  assumes "in_tape bf"
  shows "matching_close ''[-]'' 0 = Some 2 \<and>
         take (2 - Suc 0) (drop (Suc 0) ''[-]'') = ''-'' \<and>
         loop_iterations ''-'' bf (unat (cell bf)) (set_cell 0 bf) \<and>
         (\<forall>k bf'. loop_iterations ''-'' bf k bf' \<longrightarrow> k = unat (cell bf) \<and> bf' = set_cell 0 bf) \<and>
         (\<forall>fuel \<ge> unat (cell bf) + 3.
            do_brainfuck_block fuel ''[-]'' bf = Some (Returned 0 (set_cell 0 bf))) \<and>
         cell (set_cell 0 bf) = 0 \<and> unat (cell bf) < 256 \<and>
         (\<forall>f \<le> unat (cell bf). exec_loop f ''-'' bf = None) \<and>
         (\<forall>f \<ge> unat (cell bf) + 2. exec_loop f ''-'' bf = Some (Returned 0 (set_cell 0 bf))) \<and>
         (\<forall>f \<le> unat (cell bf) + 1. do_brainfuck_block f ''[-]'' bf = None) \<and>
         (\<forall>body b b'. (\<exists>f. exec_loop f body b = Some (Returned 0 b')) \<longleftrightarrow>
                       (\<exists>k. loop_iterations body b k b')) \<and>
         (\<forall>body b k b' f. loop_iterations body b k b' \<longrightarrow> f \<le> k \<longrightarrow>
                       exec_loop f body b = None) \<and>
         (\<forall>body b k b1 k' b2. loop_iterations body b k b1 \<longrightarrow> loop_iterations body b k' b2 \<longrightarrow>
                       k = k' \<and> b1 = b2)"
proof -
  have m: "matching_close ''[-]'' 0 = Some 2" by code_simp
  have it: "loop_iterations ''-'' bf (unat (cell bf)) (set_cell 0 bf)"
    using assms by (rule clear_loop_iterations) simp
  have uniq: "\<forall>k bf'. loop_iterations ''-'' bf k bf' \<longrightarrow> k = unat (cell bf) \<and> bf' = set_cell 0 bf"
    using loop_iterations_unique[OF _ it] by blast
  have el: "exec_loop (Suc (Suc (unat (cell bf)))) ''-'' bf = Some (Returned 0 (set_cell 0 bf))"
    using assms by (rule clear_loop_exec) simp
  then have "block_scan (Suc (Suc (Suc (unat (cell bf))))) ''[-]'' 0 bf =
               Some (Returned 0 (set_cell 0 bf))"
    by (simp add: block_scan_open_matched m block_scan_end)
  then have "do_brainfuck_block fuel ''[-]'' bf = Some (Returned 0 (set_cell 0 bf))"
    if "unat (cell bf) + 3 \<le> fuel" for fuel
    unfolding do_brainfuck_block_def using that by (elim block_scan_mono[rotated]) simp
  then have run: "\<forall>fuel \<ge> unat (cell bf) + 3.
            do_brainfuck_block fuel ''[-]'' bf = Some (Returned 0 (set_cell 0 bf))"
    by blast
  have lt: "unat (cell bf) < 256" using unsigned_less[of "cell bf", where ?'a = nat] by simp
  have tk: "take (2 - Suc 0) (drop (Suc 0) ''[-]'') = ''-''" by simp
  have z: "cell (set_cell 0 bf) = 0" using assms by simp
  have none: "\<forall>f \<le> unat (cell bf). exec_loop f ''-'' bf = None"
    using clear_loop_needs_fuel[OF assms] by blast
  have "exec_loop f ''-'' bf = Some (Returned 0 (set_cell 0 bf))"
    if "unat (cell bf) + 2 \<le> f" for f
    using el that by (elim exec_loop_mono[rotated]) simp
  then have some: "\<forall>f \<ge> unat (cell bf) + 2.
      exec_loop f ''-'' bf = Some (Returned 0 (set_cell 0 bf))"
    by blast
  have "do_brainfuck_block f ''[-]'' bf = None" if "f \<le> unat (cell bf) + 1" for f
  proof (cases f)
    case 0
    then show ?thesis by (simp add: do_brainfuck_block_def block_scan.simps)
  next
    case (Suc g)
    then have "exec_loop g ''-'' bf = None" using that none by simp
    then show ?thesis using Suc by (simp add: do_brainfuck_block_def block_scan_open_matched m)
  qed
  then have none': "\<forall>f \<le> unat (cell bf) + 1. do_brainfuck_block f ''[-]'' bf = None"
    by blast
  have tie: "\<forall>body b b'. (\<exists>f. exec_loop f body b = Some (Returned 0 b')) \<longleftrightarrow>
                       (\<exists>k. loop_iterations body b k b')"
    using loop_iterations_exec_loop exec_loop_loop_iterations by blast
  have fuel_k: "\<forall>body b k b' f. loop_iterations body b k b' \<longrightarrow> f \<le> k \<longrightarrow>
                       exec_loop f body b = None"
    using loop_iterations_needs_fuel by blast
  have uniq_k: "\<forall>body b k b1 k' b2. loop_iterations body b k b1 \<longrightarrow>
                  loop_iterations body b k' b2 \<longrightarrow> k = k' \<and> b1 = b2"
    using loop_iterations_unique by blast
  show ?thesis
    by (intro conjI) (fact m tk it uniq run z lt none some none' tie fuel_k uniq_k)+
qed

theorem clear_loop_runs_cell_value_times_witness:
  "in_tape (window [5, 9]) \<and>
   loop_iterations ''-'' (window [5, 9]) 5 (window [0, 9]) \<and>
   do_brainfuck_block 8 ''[-]'' (window [5, 9]) = Some (Returned 0 (window [0, 9])) \<and>
   exec_loop 5 ''-'' (window [5, 9]) = None \<and>
   exec_loop 7 ''-'' (window [5, 9]) = Some (Returned 0 (window [0, 9])) \<and>
   do_brainfuck_block 6 ''[-]'' (window [5, 9]) = None"
proof -
  have h: "in_tape (window [5, 9])" by (simp add: in_tape_def window_def)
  have n: "unat (cell (window [5, 9])) = 5" by (simp add: cell_def window_def)
  have s: "set_cell 0 (window [5, 9]) = window [0, 9]" by (simp add: set_cell_def window_def)
  note t = clear_loop_runs_cell_value_times[OF h, unfolded n s]
  have c1: "loop_iterations ''-'' (window [5, 9]) 5 (window [0, 9])"
    by (rule t[THEN conjunct2, THEN conjunct2, THEN conjunct1])
  have "\<forall>fuel \<ge> 5 + 3. do_brainfuck_block fuel ''[-]'' (window [5, 9]) =
          Some (Returned 0 (window [0, 9]))"
    by (rule t[THEN conjunct2, THEN conjunct2, THEN conjunct2, THEN conjunct2, THEN conjunct1])
  then have c2: "do_brainfuck_block 8 ''[-]'' (window [5, 9]) = Some (Returned 0 (window [0, 9]))"
    by simp
  note t7 = t[THEN conjunct2, THEN conjunct2, THEN conjunct2, THEN conjunct2, THEN conjunct2,
      THEN conjunct2, THEN conjunct2]
  have "\<forall>f \<le> 5. exec_loop f ''-'' (window [5, 9]) = None"
    by (rule t7[THEN conjunct1])
  then have c3: "exec_loop 5 ''-'' (window [5, 9]) = None" by simp
  have "\<forall>f \<ge> 5 + 2. exec_loop f ''-'' (window [5, 9]) = Some (Returned 0 (window [0, 9]))"
    by (rule t7[THEN conjunct2, THEN conjunct1])
  then have c4: "exec_loop 7 ''-'' (window [5, 9]) = Some (Returned 0 (window [0, 9]))" by simp
  have "\<forall>f \<le> 5 + 1. do_brainfuck_block f ''[-]'' (window [5, 9]) = None"
    by (rule t7[THEN conjunct2, THEN conjunct2, THEN conjunct1])
  then have c5: "do_brainfuck_block 6 ''[-]'' (window [5, 9]) = None" by simp
  from h c1 c2 c3 c4 c5 show ?thesis by (intro conjI)
qed

text \<open>
  C10. A loop reached with the current cell at 0 runs its body zero times, and the scan
  goes on after the matching \<^verbatim>\<open>']'\<close> in the same context, whatever the body is. The
  bracket scan reads nothing of a character except whether it is \<^verbatim>\<open>'['\<close> or \<^verbatim>\<open>']'\<close>: a block
  with the same brackets at the same places gives the same scan and is skipped the same
  way. The body of a matched loop is balanced, so the only non-zero status it could
  have returned is \<open>-4\<close>: an illegal character is the error a skipped body can hide.
  So \<^verbatim>\<open>[@]\<close> returns 0 from a zeroed array although its body alone returns \<open>-4\<close>.
\<close>

theorem skipped_loop_body_unchecked:
  assumes "i < length code" and "code ! i = CHR ''[''" and "matching_close code i = Some j"
    and "in_tape bf" and "cell bf = 0"
  shows "block_scan (Suc (Suc fuel)) code i bf = block_scan (Suc fuel) code (Suc j) bf \<and>
         loop_iterations (take (j - Suc i) (drop (Suc i) code)) bf 0 bf \<and>
         (\<forall>k bf'. loop_iterations (take (j - Suc i) (drop (Suc i) code)) bf k bf' \<longrightarrow>
                   k = 0 \<and> bf' = bf) \<and>
         (\<forall>code'. length code' = length code \<longrightarrow>
            (\<forall>k < length code. (code' ! k = CHR ''['' \<longleftrightarrow> code ! k = CHR ''['') \<and>
                                 (code' ! k = CHR '']'' \<longleftrightarrow> code ! k = CHR '']'')) \<longrightarrow>
            scan_loop_end code' (Suc i) 1 = scan_loop_end code (Suc i) 1 \<and>
            block_scan (Suc (Suc fuel)) code' i bf = block_scan (Suc fuel) code' (Suc j) bf) \<and>
         (\<forall>f b ret b'.
            do_brainfuck_block f (take (j - Suc i) (drop (Suc i) code)) b = Some (Returned ret b') \<longrightarrow>
            ret = 0 \<or> ret = - 4) \<and>
         do_brainfuck (Suc (Suc (Suc fuel))) ''[@]'' 3 inp = Some (Returned 0 (initial inp)) \<and>
         do_brainfuck_block (Suc fuel) ''@'' (initial inp) =
           Some (Returned (- 4) (report (Illegal_character CHR ''@'') (initial inp)))"
proof -
  let ?body = "take (j - Suc i) (drop (Suc i) code)"
  have skip: "block_scan (Suc (Suc fuel)) code i bf = block_scan (Suc fuel) code (Suc j) bf"
    using assms by (rule block_scan_loop_skip)
  have it: "loop_iterations ?body bf 0 bf"
    using assms(4,5) by (rule loop_iterations.leave)
  have uniq: "\<forall>k bf'. loop_iterations ?body bf k bf' \<longrightarrow> k = 0 \<and> bf' = bf"
    using loop_iterations_unique[OF _ it] by blast
  have other0: "scan_loop_end code' (Suc i) 1 = scan_loop_end code (Suc i) 1 \<and>
            block_scan (Suc (Suc fuel)) code' i bf = block_scan (Suc fuel) code' (Suc j) bf"
    if len: "length code' = length code"
      and same: "\<forall>k < length code. (code' ! k = CHR ''['' \<longleftrightarrow> code ! k = CHR ''['') \<and>
                                 (code' ! k = CHR '']'' \<longleftrightarrow> code ! k = CHR '']'')" for code'
  proof -
    have s: "scan_loop_end code' (Suc i) 1 = scan_loop_end code (Suc i) 1"
      using len same by (rule scan_loop_end_brackets_only)
    have "scan_loop_end code (Suc i) 1 = (j, 0)"
      using scan_loop_end_matching_close[OF assms(1)] assms(3) by blast
    with s have "matching_close code' i = Some j"
      using len assms(1) by (intro scan_loop_end_matched) simp_all
    moreover have "i < length code'" "code' ! i = CHR ''[''"
      using len same assms(1,2) by simp_all
    ultimately have "block_scan (Suc (Suc fuel)) code' i bf = block_scan (Suc fuel) code' (Suc j) bf"
      using assms(4,5) by (intro block_scan_loop_skip) simp_all
    with s show ?thesis by simp
  qed
  have m: "matching_close ''[@]'' 0 = Some 2" by code_simp
  have ex1: "do_brainfuck (Suc (Suc (Suc fuel))) ''[@]'' 3 inp = Some (Returned 0 (initial inp))"
    by (simp add: do_brainfuck_def step_simps m)
  have ex2: "do_brainfuck_block (Suc fuel) ''@'' (initial inp) =
           Some (Returned (- 4) (report (Illegal_character CHR ''@'') (initial inp)))"
    by (simp add: step_simps)
  have other: "\<forall>code'. length code' = length code \<longrightarrow>
            (\<forall>k < length code. (code' ! k = CHR ''['' \<longleftrightarrow> code ! k = CHR ''['') \<and>
                                 (code' ! k = CHR '']'' \<longleftrightarrow> code ! k = CHR '']'')) \<longrightarrow>
            scan_loop_end code' (Suc i) 1 = scan_loop_end code (Suc i) 1 \<and>
            block_scan (Suc (Suc fuel)) code' i bf = block_scan (Suc fuel) code' (Suc j) bf"
    using other0 by (intro allI impI)
  have only4: "\<forall>f b ret b'.
            do_brainfuck_block f ?body b = Some (Returned ret b') \<longrightarrow> ret = 0 \<or> ret = - 4"
    unfolding do_brainfuck_block_def using matched_body_status[OF assms(3)] by blast
  show ?thesis
    by (intro conjI) (fact skip it uniq other only4 ex1 ex2)+
qed

theorem skipped_loop_body_unchecked_witness:
  "(0::nat) < length ''[+@]+'' \<and> ''[+@]+'' ! 0 = CHR ''['' \<and> matching_close ''[+@]+'' 0 = Some 3 \<and>
   in_tape (window [0]) \<and> cell (window [0]) = 0 \<and>
   block_scan (Suc (Suc 1)) ''[+@]+'' 0 (window [0]) = Some (Returned 0 (window [1])) \<and>
   do_brainfuck_block 3 (take (3 - Suc 0) (drop (Suc 0) ''[+@]+'')) (window [0]) =
     Some (Returned (- 4) (report (Illegal_character CHR ''@'') (window [1]))) \<and>
   length ''[?!]-'' = length ''[+@]+'' \<and>
   scan_loop_end ''[?!]-'' (Suc 0) 1 = scan_loop_end ''[+@]+'' (Suc 0) 1"
proof -
  have h1: "(0::nat) < length ''[+@]+''" and h2: "''[+@]+'' ! 0 = CHR ''[''" by simp_all
  have h3: "matching_close ''[+@]+'' 0 = Some 3" by code_simp
  have h4: "in_tape (window [0])" and h5: "cell (window [0]) = 0"
    by (simp_all add: in_tape_def cell_def window_def)
  have after: "block_scan (Suc 1) ''[+@]+'' (Suc 3) (window [0]) = Some (Returned 0 (window [1]))"
    by code_simp
  have body: "do_brainfuck_block 3 (take (3 - Suc 0) (drop (Suc 0) ''[+@]+'')) (window [0]) =
     Some (Returned (- 4) (report (Illegal_character CHR ''@'') (window [1])))"
    by code_simp
  have h6: "length ''[?!]-'' = length ''[+@]+''" by simp
  have h7: "\<forall>k < length ''[+@]+''.
              (''[?!]-'' ! k = CHR ''['' \<longleftrightarrow> ''[+@]+'' ! k = CHR ''['') \<and>
              (''[?!]-'' ! k = CHR '']'' \<longleftrightarrow> ''[+@]+'' ! k = CHR '']'')"
    by (simp add: less_Suc_eq eval_nat_numeral)
  note t = skipped_loop_body_unchecked[OF h1 h2 h3 h4 h5, of 1]
  have "block_scan (Suc (Suc 1)) ''[+@]+'' 0 (window [0]) =
          block_scan (Suc 1) ''[+@]+'' (Suc 3) (window [0])"
    by (rule t[THEN conjunct1])
  then have c: "block_scan (Suc (Suc 1)) ''[+@]+'' 0 (window [0]) = Some (Returned 0 (window [1]))"
    by (simp only: after)
  have c': "scan_loop_end ''[?!]-'' (Suc 0) 1 = scan_loop_end ''[+@]+'' (Suc 0) 1"
    using t[THEN conjunct2, THEN conjunct2, THEN conjunct2, THEN conjunct1] h6 h7 by blast
  from h1 h2 h3 h4 h5 c body h6 c' show ?thesis by (intro conjI)
qed

end
